theory Spec2Isabelle
  imports Main "HOL-Library.Sublist" "HOL-Library.AList"
begin

section \<open>Errors\<close>

text \<open>
  JavaScript exceptions are values. A function that can throw returns \<open>error + 'a\<close>,
  with \<open>Inl\<close> the thrown error. The four constructors are the error classes the
  modelled code can raise: a plain \<open>Error\<close> with its message, and the \<open>TypeError\<close>,
  \<open>RangeError\<close> and \<open>SyntaxError\<close> raised by the Node.js runtime. A \<open>try\<close> block is a
  case distinction on such a result. Calls of \<open>log.info\<close>, \<open>log.warn\<close> and \<open>log.error\<close>
  and the notifications change nothing of the modelled state and are left out.
\<close>

datatype error = Error string | TypeError string | RangeError string | SyntaxError string

section \<open>Webhook signature verification (the web server)\<close>

text \<open>
  A JavaScript string is modelled as a HOL \<open>string\<close>. Node.js decodes the bytes of an
  HTTP header value as Latin-1, so every character of a header is a code point below 256,
  which is exactly what a HOL \<open>char\<close> holds. A value that may be \<open>undefined\<close> is an
  \<open>option\<close>.
\<close>

record request =
  x_hub_signature_256 :: "string option"  \<comment> \<open>\<open>req.headers['x-hub-signature-256']\<close>\<close>
  rawBody :: "string option"              \<comment> \<open>\<open>req.rawBody\<close>, set by the JSON body parser\<close>

text \<open>JavaScript truthiness of a possibly undefined string: \<open>!s\<close> holds for
  \<open>undefined\<close> and for the empty string.\<close>

definition falsy :: "string option \<Rightarrow> bool" where
  "falsy s = (case s of None \<Rightarrow> True | Some v \<Rightarrow> v = [])"

text \<open>\<open>Buffer.from(s)\<close> encodes a string as UTF-8: a code point below 128 is one byte,
  a code point from 128 to 255 is two bytes.\<close>

definition utf8_char :: "char \<Rightarrow> nat list" where
  "utf8_char c =
     (let n = (of_char c :: nat)
      in if n < 128 then [n] else [192 + n div 64, 128 + n mod 64])"

definition Buffer_from :: "string \<Rightarrow> nat list" where
  "Buffer_from s = concat (map utf8_char s)"

text \<open>\<open>crypto.timingSafeEqual(a, b)\<close> throws a \<open>RangeError\<close> when the two buffers do
  not have the same byte length, and compares them otherwise.\<close>

definition timingSafeEqual :: "nat list \<Rightarrow> nat list \<Rightarrow> error + bool" where
  "timingSafeEqual a b =
     (if length a \<noteq> length b
      then Inl (RangeError ''Input buffers must have the same byte length'')
      else Inr (a = b))"

text \<open>
  \<open>verifyGitHubSignature(req)\<close>. The HMAC-SHA256 of the Node.js \<open>crypto\<close> module is the
  parameter \<open>hmac_hex secret body\<close>, the hexadecimal digest of \<open>body\<close> under the key
  \<open>secret\<close>; \<open>secret\<close> is \<open>process.env.WEBHOOK_SECRET\<close>. \<open>hmac.update\<close> throws a
  \<open>TypeError\<close> when its argument is \<open>undefined\<close>.
\<close>

definition verifyGitHubSignature ::
  "(string \<Rightarrow> string \<Rightarrow> string) \<Rightarrow> string option \<Rightarrow> request \<Rightarrow> error + bool" where
  "verifyGitHubSignature hmac_hex WEBHOOK_SECRET req =
     (let signature = x_hub_signature_256 req;
          secret = WEBHOOK_SECRET
      in if falsy signature \<or> falsy secret then Inr False
         else (case rawBody req of
                 None \<Rightarrow> Inl (TypeError ''The data argument must be of type string'')
               | Some body \<Rightarrow>
                   (let calculatedSignature = ''sha256='' @ hmac_hex (the secret) body
                    in timingSafeEqual (Buffer_from (the signature))
                                       (Buffer_from calculatedSignature))))"


section \<open>JSON values, files and the file system\<close>

text \<open>
  A parsed JSON document. An object is the list of its properties in insertion order.
\<close>

datatype jval =
    JNull | JBool bool | JNum int | JStr string
  | JArr "jval list" | JObj "(string \<times> jval) list"

text \<open>
  The content of a regular file. The add-on stores its own state as JSON documents, written
  with \<open>JSON.stringify\<close> and read back with \<open>JSON.parse\<close>: \<open>Json v\<close> is the text of the
  document \<open>v\<close>. \<open>Raw s\<close> is any text that is not a JSON document, and \<open>Archive t\<close> is a
  \<open>tar\<close> archive of the tree \<open>t\<close> (relative path and content of every file).
\<close>

datatype content = Json jval | Raw string | Archive "(string \<times> content) list"

record regular_file =
  content :: content
  mtime :: nat       \<comment> \<open>modification time, milliseconds\<close>

text \<open>
  Paths are strings, as in the source. The file system is the list of its regular files
  with their absolute, normalised paths; a directory exists when a file lies below it.
  \<open>path.join(d, f)\<close> joins its operands with a separator and normalises the result.
  \<open>path_join\<close> is the join alone: it is used where both operands are normalised, a
  constant directory with a directory entry or with a name that the code builds, and
  there the normalisation changes nothing (\<open>path_join_norm_plain\<close> below). The route that
  deletes a backup joins the backup directory with the file name of the request; its
  property is stated for the names whose joined path is a file of the file system.
  \<open>path_join_norm\<close> is the join followed by \<open>path.normalize\<close>: it is used where an operand
  comes from outside, the lines of \<open>git ls-files\<close> and the content of the state file.
  \<open>path.basename\<close> and \<open>path.dirname\<close> are modelled on normalised operands.
\<close>

type_synonym path = string
type_synonym fs = "(path \<times> regular_file) list"

definition path_join :: "path \<Rightarrow> string \<Rightarrow> path" where
  "path_join d f = d @ ''/'' @ f"

definition basename :: "path \<Rightarrow> string" where
  "basename p = rev (takeWhile (\<lambda>c. c \<noteq> CHR ''/'') (rev p))"

definition dirname :: "path \<Rightarrow> path" where
  "dirname p = rev (drop 1 (dropWhile (\<lambda>c. c \<noteq> CHR ''/'') (rev p)))"

text \<open>\<open>s.split(c)\<close>: the pieces of \<open>s\<close> between the occurrences of \<open>c\<close>.\<close>

fun split_on :: "char \<Rightarrow> string \<Rightarrow> string list" where
  "split_on c [] = [[]]"
| "split_on c (x # xs) =
     (if x = c then [] # split_on c xs
      else (case split_on c xs of
              seg # segs \<Rightarrow> (x # seg) # segs
            | [] \<Rightarrow> [[x]]))"

text \<open>
  \<open>normalizeString\<close> of the Node.js \<open>path\<close> module, on the segments of the path: empty
  segments and \<open>.\<close> are dropped, \<open>..\<close> removes the segment before it, and where there is
  none it is kept when \<open>allowAboveRoot\<close> holds and dropped otherwise. \<open>res\<close> holds the
  segments kept so far, the last one first.
\<close>

fun normalizeString :: "bool \<Rightarrow> string list \<Rightarrow> string list \<Rightarrow> string list" where
  "normalizeString allowAboveRoot res [] = rev res"
| "normalizeString allowAboveRoot res (seg # segs) =
     (if seg = [] \<or> seg = ''.'' then normalizeString allowAboveRoot res segs
      else if seg = ''..''
      then (case res of
              lastSegment # rest \<Rightarrow>
                (if lastSegment \<noteq> ''..'' then normalizeString allowAboveRoot rest segs
                 else if allowAboveRoot then normalizeString allowAboveRoot (seg # res) segs
                 else normalizeString allowAboveRoot res segs)
            | [] \<Rightarrow>
                (if allowAboveRoot then normalizeString allowAboveRoot (seg # res) segs
                 else normalizeString allowAboveRoot res segs))
      else normalizeString allowAboveRoot (seg # res) segs)"

fun join_slash :: "string list \<Rightarrow> string" where
  "join_slash [] = []"
| "join_slash [seg] = seg"
| "join_slash (seg # segs) = seg @ ''/'' @ join_slash segs"

text \<open>\<open>path.normalize(p)\<close> (POSIX): a trailing separator is kept.\<close>

definition path_normalize :: "path \<Rightarrow> path" where
  "path_normalize p =
     (if p = [] then ''.''
      else (let isAbsolute = (take 1 p = ''/'');
                trailingSeparator = (take 1 (rev p) = ''/'');
                q = join_slash (normalizeString (\<not> isAbsolute) [] (split_on CHR ''/'' p))
            in if q = []
               then (if isAbsolute then ''/'' else if trailingSeparator then ''./'' else ''.'')
               else (if isAbsolute then ''/'' else []) @ q
                      @ (if trailingSeparator then ''/'' else [])))"

text \<open>\<open>path.join(d, f)\<close> in full: empty operands are skipped, the others are joined
  with a separator, and the result is normalised.\<close>

definition path_join_norm :: "path \<Rightarrow> string \<Rightarrow> path" where
  "path_join_norm d f =
     (let joined = (if d = [] then f else if f = [] then d else d @ ''/'' @ f)
      in if joined = [] then ''.'' else path_normalize joined)"

text \<open>A segment that normalisation keeps as it is.\<close>

definition plain_segment :: "string \<Rightarrow> bool" where
  "plain_segment seg = (seg \<noteq> [] \<and> seg \<noteq> ''.'' \<and> seg \<noteq> ''..'' \<and> CHR ''/'' \<notin> set seg)"

definition is_under :: "path \<Rightarrow> path \<Rightarrow> bool" where
  \<comment> \<open>\<open>p\<close> lies inside the directory \<open>d\<close>\<close>
  "is_under d p = prefix (d @ ''/'') p"

text \<open>
  Everything the code reads from outside is a field of the environment: which system
  calls fail (\<open>fault op p\<close>: the operation \<open>op\<close> on the path \<open>p\<close> fails), the process
  environment variables, the clock, the random source, and the outcome of the external
  programs and services (\<open>git ls-files\<close>, \<open>git clone\<close>, the supervisor's restart call).
\<close>

datatype fs_op =
  Access | ReadFile | WriteFile | Mkdir | Unlink | Readdir | Stat | CopyFile | Rm | Exec

record env =
  fault :: "fs_op \<Rightarrow> path \<Rightarrow> bool"
  process_env :: "string \<Rightarrow> string option"               \<comment> \<open>\<open>process.env\<close>\<close>
  now :: nat                                                \<comment> \<open>\<open>Date.now()\<close>\<close>
  elapsed :: nat                   \<comment> \<open>\<open>Date.now() - startTime\<close> at the end of a run\<close>
  now_iso :: string                                         \<comment> \<open>\<open>new Date().toISOString()\<close>\<close>
  random36 :: string              \<comment> \<open>\<open>Math.random().toString(36).substr(2, 9)\<close>\<close>
  git_ls_files :: "error + string"       \<comment> \<open>the standard output of \<open>git ls-files\<close>\<close>
  repo_url :: "error + string"           \<comment> \<open>\<open>getAuthenticatedRepoUrl()\<close>\<close>
  git_clone :: "error + (string \<times> regular_file) list"  \<comment> \<open>the tree \<open>git clone\<close> checks out\<close>
  restart_call :: "error option"         \<comment> \<open>the failure of the supervisor's restart call, if any\<close>

subsection \<open>System calls\<close>

definition access :: "env \<Rightarrow> fs \<Rightarrow> path \<Rightarrow> error + unit" where
  "access e fs p =
     (if fault e Access p \<or> \<not> list_ex (\<lambda>q. q = p \<or> is_under p q) (map fst fs)
      then Inl (Error ''access failed'') else Inr ())"

definition readFile :: "env \<Rightarrow> fs \<Rightarrow> path \<Rightarrow> error + content" where
  "readFile e fs p =
     (if fault e ReadFile p then Inl (Error ''read failed'')
      else (case map_of fs p of
              None \<Rightarrow> Inl (Error ''ENOENT: no such file'')
            | Some f \<Rightarrow> Inr (content f)))"

definition writeFile :: "env \<Rightarrow> fs \<Rightarrow> path \<Rightarrow> content \<Rightarrow> error + fs" where
  "writeFile e fs p c =
     (if fault e WriteFile p then Inl (Error ''write failed'')
      else Inr (AList.update p \<lparr>content = c, mtime = now e\<rparr> fs))"

definition mkdir :: "env \<Rightarrow> path \<Rightarrow> error + unit" where
  \<comment> \<open>\<open>fs.mkdir(p, { recursive: true })\<close>; directories hold no data of their own\<close>
  "mkdir e p = (if fault e Mkdir p then Inl (Error ''mkdir failed'') else Inr ())"

definition unlink :: "env \<Rightarrow> fs \<Rightarrow> path \<Rightarrow> error + fs" where
  "unlink e fs p =
     (if fault e Unlink p \<or> map_of fs p = None then Inl (Error ''unlink failed'')
      else Inr (AList.delete p fs))"

definition JSON_parse :: "content \<Rightarrow> error + jval" where
  "JSON_parse c = (case c of Json v \<Rightarrow> Inr v | _ \<Rightarrow> Inl (SyntaxError ''Unexpected token''))"

subsection \<open>utils.js\<close>

definition exists :: "env \<Rightarrow> fs \<Rightarrow> path \<Rightarrow> bool" where
  "exists e fs filePath = (case access e fs filePath of Inr _ \<Rightarrow> True | Inl _ \<Rightarrow> False)"

definition removeDirectory :: "env \<Rightarrow> fs \<Rightarrow> path \<Rightarrow> error + fs" where
  "removeDirectory e fs dirPath =
     (if exists e fs dirPath
      then (if fault e Rm dirPath then Inl (Error ''Failed to remove directory'')
            else Inr (filter (\<lambda>(q, f). \<not> (q = dirPath \<or> is_under dirPath q)) fs))
      else Inr fs)"

text \<open>
  \<open>rsync -av source/ destination/\<close>, with \<open>--ignore-existing\<close> unless \<open>overwrite\<close>: every
  file below \<open>source\<close> is copied to the same relative path below \<open>destination\<close>.
\<close>

definition rsync :: "bool \<Rightarrow> path \<Rightarrow> path \<Rightarrow> fs \<Rightarrow> fs" where
  "rsync overwrite source destination fs =
     foldl (\<lambda>acc (p, f).
              if is_under source p
              then (let q = destination @ drop (length source) p
                    in if overwrite \<or> map_of acc q = None then AList.update q f acc else acc)
              else acc) fs fs"

definition copyDirectory :: "env \<Rightarrow> fs \<Rightarrow> path \<Rightarrow> path \<Rightarrow> bool \<Rightarrow> error + fs" where
  "copyDirectory e fs source destination overwrite =
     (case mkdir e destination of
        Inl err \<Rightarrow> Inl (Error ''Failed to copy directory'')
      | Inr _ \<Rightarrow>
          (if fault e Exec destination then Inl (Error ''Failed to copy directory'')
           else Inr (rsync overwrite source destination fs)))"

section \<open>The sync history ledger (syncHistory.js)\<close>

definition HISTORY_FILE :: path where
  "HISTORY_FILE = ''/data/sync-history.json''"

definition MAX_HISTORY_ENTRIES :: nat where
  "MAX_HISTORY_ENTRIES = 100"

definition loadHistory :: "env \<Rightarrow> fs \<Rightarrow> jval" where
  "loadHistory e fs =
     (case (if \<not> exists e fs HISTORY_FILE then Inr (JArr [])
            else (case readFile e fs HISTORY_FILE of
                    Inl err \<Rightarrow> Inl err
                  | Inr data \<Rightarrow> JSON_parse data)) of
        Inl err \<Rightarrow> JArr []    \<comment> \<open>\<open>catch\<close>: the error is logged\<close>
      | Inr v \<Rightarrow> v)"

definition saveHistory :: "env \<Rightarrow> fs \<Rightarrow> jval list \<Rightarrow> fs" where
  "saveHistory e fs history =
     (case mkdir e (dirname HISTORY_FILE) of
        Inl err \<Rightarrow> fs          \<comment> \<open>\<open>catch\<close>: the error is logged\<close>
      | Inr _ \<Rightarrow>
          (let trimmedHistory = take MAX_HISTORY_ENTRIES history
           in (case writeFile e fs HISTORY_FILE (Json (JArr trimmedHistory)) of
                 Inl err \<Rightarrow> fs
               | Inr fs' \<Rightarrow> fs')))"

text \<open>Decimal digits of a number, as a template string prints it.\<close>

definition digit_char :: "nat \<Rightarrow> char" where
  "digit_char d = ''0123456789'' ! d"

fun show_nat :: "nat \<Rightarrow> string" where
  "show_nat n =
     (if n < 10 then [digit_char n]
      else show_nat (n div 10) @ [digit_char (n mod 10)])"

declare show_nat.simps [simp del]

definition generateId :: "env \<Rightarrow> string" where
  "generateId e = ''sync_'' @ show_nat (now e) @ ''_'' @ random36 e"

text \<open>
  \<open>addSyncEntry(entry)\<close>. The object literal \<open>{ id, timestamp, status, ...entry }\<close> lists
  the three generated properties first and spreads \<open>entry\<close> after them, so a property of
  \<open>entry\<close> with one of these names replaces the generated value. \<open>history.unshift\<close> throws
  a \<open>TypeError\<close> when the stored document is not an array. The result is \<open>newEntry.id\<close>
  and the new file system.
\<close>

text \<open>\<open>{ ...base, ...ext }\<close>: the properties of \<open>ext\<close> are set one after the other on a
  copy of \<open>base\<close>; a property that is already there keeps its place and takes the new
  value, a new property goes to the end.\<close>

definition spread :: "(string \<times> jval) list \<Rightarrow> (string \<times> jval) list \<Rightarrow> (string \<times> jval) list" where
  "spread base ext = fold (\<lambda>(k, v). AList.update k v) ext base"

definition newEntry :: "env \<Rightarrow> (string \<times> jval) list \<Rightarrow> (string \<times> jval) list" where
  "newEntry e entry =
     spread
       [(''id'', JStr (generateId e)),
        (''timestamp'', JStr (now_iso e)),
        (''status'', JStr ''in_progress'')]
       entry"

definition addSyncEntry :: "env \<Rightarrow> fs \<Rightarrow> (string \<times> jval) list \<Rightarrow> (error + jval option) \<times> fs" where
  "addSyncEntry e fs entry =
     (let history = loadHistory e fs
      in (case history of
            JArr h \<Rightarrow>
              (Inr (map_of (newEntry e entry) ''id''),
               saveHistory e fs (JObj (newEntry e entry) # h))
          | _ \<Rightarrow> (Inl (TypeError ''history.unshift is not a function''), fs)))"

text \<open>A sequence of calls, each with the environment it runs in.\<close>

fun addSyncEntry_seq :: "(env \<times> (string \<times> jval) list) list \<Rightarrow> fs \<Rightarrow> fs" where
  "addSyncEntry_seq [] fs = fs"
| "addSyncEntry_seq ((e, entry) # calls) fs =
     addSyncEntry_seq calls (snd (addSyncEntry e fs entry))"

text \<open>The ledger that the history file holds: empty when there is no file, undefined when
  the file is not a JSON array.\<close>

definition stored_ledger :: "fs \<Rightarrow> jval list option" where
  "stored_ledger fs =
     (case map_of fs HISTORY_FILE of
        None \<Rightarrow> Some []
      | Some f \<Rightarrow> (case content f of Json (JArr h) \<Rightarrow> Some h | _ \<Rightarrow> None))"

text \<open>No system call on the history file fails.\<close>

definition history_io_ok :: "env \<Rightarrow> bool" where
  "history_io_ok e =
     (\<not> fault e Access HISTORY_FILE \<and> \<not> fault e ReadFile HISTORY_FILE \<and>
      \<not> fault e Mkdir (dirname HISTORY_FILE) \<and> \<not> fault e WriteFile HISTORY_FILE)"

text \<open>An environment in which nothing fails, at time \<open>t\<close> with random suffix \<open>r\<close>.\<close>

definition quiet_env :: "nat \<Rightarrow> string \<Rightarrow> env" where
  "quiet_env t r =
     \<lparr>fault = (\<lambda>op p. False), process_env = (\<lambda>v. None), now = t, elapsed = 1500,
      now_iso = ''2025-01-01T00:00:00.000Z'', random36 = r,
      git_ls_files = Inr [], repo_url = Inr ''https://github.com/user/repo.git'',
      git_clone = Inr [], restart_call = None\<rparr>"

text \<open>\<open>a === b\<close> on parsed JSON values: equal primitives; two objects or arrays that
  come from different sources are never the same reference.\<close>

definition strict_equal :: "jval \<Rightarrow> jval \<Rightarrow> bool" where
  "strict_equal a b =
     (case a of JArr _ \<Rightarrow> False | JObj _ \<Rightarrow> False | _ \<Rightarrow> a = b)"

text \<open>\<open>history.findIndex(e => e.id === id)\<close>: reading \<open>e.id\<close> of \<open>null\<close> throws.\<close>

fun findIndex_id :: "jval \<Rightarrow> jval list \<Rightarrow> error + nat option" where
  "findIndex_id ident [] = Inr None"
| "findIndex_id ident (JNull # es) = Inl (TypeError ''Cannot read properties of null'')"
| "findIndex_id ident (JObj ps # es) =
     (case map_of ps ''id'' of
        Some v \<Rightarrow>
          (if strict_equal v ident then Inr (Some 0)
           else (case findIndex_id ident es of
                   Inl err \<Rightarrow> Inl err
                 | Inr None \<Rightarrow> Inr None
                 | Inr (Some i) \<Rightarrow> Inr (Some (Suc i))))
      | None \<Rightarrow>
          (case findIndex_id ident es of
             Inl err \<Rightarrow> Inl err
           | Inr None \<Rightarrow> Inr None
           | Inr (Some i) \<Rightarrow> Inr (Some (Suc i))))"
| "findIndex_id ident (e # es) =
     (case findIndex_id ident es of
        Inl err \<Rightarrow> Inl err
      | Inr None \<Rightarrow> Inr None
      | Inr (Some i) \<Rightarrow> Inr (Some (Suc i)))"

definition updateSyncEntry :: "env \<Rightarrow> fs \<Rightarrow> jval \<Rightarrow> (string \<times> jval) list \<Rightarrow> (error + unit) \<times> fs" where
  "updateSyncEntry e fs ident updates =
     (case loadHistory e fs of
        JArr h \<Rightarrow>
          (case findIndex_id ident h of
             Inl err \<Rightarrow> (Inl err, fs)
           | Inr None \<Rightarrow> (Inr (), fs)       \<comment> \<open>a warning is logged\<close>
           | Inr (Some i) \<Rightarrow>
               (case h ! i of
                  JObj ps \<Rightarrow> (Inr (), saveHistory e fs (h[i := JObj (spread ps updates)]))
                | _ \<Rightarrow> (Inr (), fs)))
      | _ \<Rightarrow> (Inl (TypeError ''history.findIndex is not a function''), fs))"

text \<open>Reading a decimal number back, the inverse of \<open>show_nat\<close>.\<close>

definition read_nat :: "string \<Rightarrow> nat" where
  "read_nat s = foldl (\<lambda>a c. 10 * a + (of_char c - 48)) 0 s"

section \<open>The backup store (backup.js)\<close>

definition BACKUP_DIR :: path where
  "BACKUP_DIR = ''/backup/github-sync''"

definition PROTECTED_BACKUPS_FILE :: path where
  "PROTECTED_BACKUPS_FILE = path_join BACKUP_DIR ''.protected-backups.json''"

definition loadProtectedBackups :: "env \<Rightarrow> fs \<Rightarrow> jval" where
  "loadProtectedBackups e fs =
     (case (if exists e fs PROTECTED_BACKUPS_FILE
            then (case readFile e fs PROTECTED_BACKUPS_FILE of
                    Inl err \<Rightarrow> Inl err
                  | Inr data \<Rightarrow> JSON_parse data)
            else Inr (JArr [])) of
        Inl err \<Rightarrow> JArr []    \<comment> \<open>\<open>catch\<close>: the error is logged\<close>
      | Inr v \<Rightarrow> v)"

text \<open>
  \<open>list.includes(s)\<close> on a parsed JSON value: membership in an array, the substring test
  on a string, and a \<open>TypeError\<close> on a value that has no such method.
\<close>

definition js_includes :: "jval \<Rightarrow> string \<Rightarrow> error + bool" where
  "js_includes v s =
     (case v of
        JArr xs \<Rightarrow> Inr (List.member xs (JStr s))
      | JStr t \<Rightarrow> Inr (sublist s t)
      | _ \<Rightarrow> Inl (TypeError ''includes is not a function''))"

definition isBackupProtected :: "env \<Rightarrow> fs \<Rightarrow> path \<Rightarrow> error + bool" where
  "isBackupProtected e fs backupPath =
     js_includes (loadProtectedBackups e fs) (basename backupPath)"

text \<open>A backup as \<open>listBackups\<close> reports it. The \<open>size\<close> property, which is only
  displayed, is left out.\<close>

record backup =
  path :: path
  name :: string
  created :: nat
  protected :: bool

definition endsWith :: "string \<Rightarrow> string \<Rightarrow> bool" where
  "endsWith f sfx = suffix sfx f"

text \<open>\<open>fs.readdir(d)\<close>: the names of the files directly in \<open>d\<close>.\<close>

definition readdir :: "env \<Rightarrow> fs \<Rightarrow> path \<Rightarrow> error + string list" where
  "readdir e fs d =
     (if fault e Readdir d then Inl (Error ''readdir failed'')
      else Inr (map (\<lambda>p. drop (length d + 1) p)
                  (filter (\<lambda>p. is_under d p \<and> CHR ''/'' \<notin> set (drop (length d + 1) p))
                     (map fst fs))))"

definition stat :: "env \<Rightarrow> fs \<Rightarrow> path \<Rightarrow> error + regular_file" where
  "stat e fs p =
     (if fault e Stat p then Inl (Error ''stat failed'')
      else (case map_of fs p of
              None \<Rightarrow> Inl (Error ''ENOENT: no such file'')
            | Some f \<Rightarrow> Inr f))"

text \<open>\<open>Promise.all(backups.map(async (backup) => ...))\<close>: one failure fails the whole.\<close>

fun backupStats :: "env \<Rightarrow> fs \<Rightarrow> jval \<Rightarrow> path list \<Rightarrow> error + backup list" where
  "backupStats e fs protectedList [] = Inr []"
| "backupStats e fs protectedList (b # bs) =
     (case stat e fs b of
        Inl err \<Rightarrow> Inl err
      | Inr stats \<Rightarrow>
          (case js_includes protectedList (basename b) of
             Inl err \<Rightarrow> Inl err
           | Inr pr \<Rightarrow>
               (case backupStats e fs protectedList bs of
                  Inl err \<Rightarrow> Inl err
                | Inr rest \<Rightarrow>
                    Inr (\<lparr>path = b, name = basename b, created = mtime stats,
                          protected = pr\<rparr> # rest))))"

text \<open>
  \<open>listBackups()\<close>. The comparator \<open>(a, b) => b.created - a.created\<close> sorts newest first;
  \<open>Array.prototype.sort\<close> is stable, and so is \<open>sort_key\<close>.
\<close>

definition listBackups :: "env \<Rightarrow> fs \<Rightarrow> backup list" where
  "listBackups e fs =
     (case (if \<not> exists e fs BACKUP_DIR then Inr []
            else (case readdir e fs BACKUP_DIR of
                    Inl err \<Rightarrow> Inl err
                  | Inr files \<Rightarrow>
                      (let backups = map (path_join BACKUP_DIR)
                                       (filter (\<lambda>f. endsWith f ''.tar.gz'') files);
                           protectedList = loadProtectedBackups e fs
                       in (case backupStats e fs protectedList backups of
                             Inl err \<Rightarrow> Inl err
                           | Inr sts \<Rightarrow> Inr (sort_key (\<lambda>b. - int (created b)) sts))))) of
        Inl err \<Rightarrow> []       \<comment> \<open>\<open>catch\<close>: the error is logged\<close>
      | Inr bs \<Rightarrow> bs)"

subsection \<open>Retention\<close>

text \<open>
  \<open>parseInt(s, 10)\<close>: leading white space, an optional sign, then the longest run of
  decimal digits; \<open>NaN\<close> when there is no digit.
\<close>

datatype jsnum = NaN | Num int

definition is_digit :: "char \<Rightarrow> bool" where
  "is_digit c = (48 \<le> (of_char c :: nat) \<and> (of_char c :: nat) \<le> 57)"

definition is_space :: "char \<Rightarrow> bool" where
  "is_space c = (c = CHR '' '' \<or> c = CHR 0x09 \<or> c = CHR 0x0A \<or> c = CHR 0x0D)"

definition parseInt :: "string \<Rightarrow> jsnum" where
  "parseInt s =
     (let t = dropWhile is_space s;
          neg = (take 1 t = ''-'');
          u = (if take 1 t = ''-'' \<or> take 1 t = ''+'' then drop 1 t else t);
          ds = takeWhile is_digit u
      in if ds = [] then NaN
         else Num ((if neg then - 1 else 1) * int (read_nat ds)))"

definition BACKUP_RETENTION :: "env \<Rightarrow> jsnum" where
  \<comment> \<open>\<open>parseInt(process.env.BACKUP_RETENTION || '5', 10)\<close>\<close>
  "BACKUP_RETENTION e =
     parseInt (case process_env e ''BACKUP_RETENTION'' of
                 None \<Rightarrow> ''5''
               | Some s \<Rightarrow> if s = [] then ''5'' else s)"

text \<open>\<open>n <= r\<close> for a length \<open>n\<close>: false when \<open>r\<close> is \<open>NaN\<close>.\<close>

definition length_le :: "nat \<Rightarrow> jsnum \<Rightarrow> bool" where
  "length_le n r = (case r of NaN \<Rightarrow> False | Num k \<Rightarrow> int n \<le> k)"

text \<open>\<open>xs.slice(r)\<close>: \<open>NaN\<close> counts as 0, a negative start counts from the end.\<close>

definition slice_from :: "'a list \<Rightarrow> jsnum \<Rightarrow> 'a list" where
  "slice_from xs r =
     (case r of
        NaN \<Rightarrow> xs
      | Num k \<Rightarrow> if k < 0 then drop (nat (int (length xs) + k)) xs else drop (nat k) xs)"

text \<open>The loop \<open>for (const backup of toRemove) await fs.unlink(backup.path)\<close>: the first
  failing \<open>unlink\<close> throws out of the loop, the deletions before it are done.\<close>

fun unlink_each :: "env \<Rightarrow> fs \<Rightarrow> backup list \<Rightarrow> (error + unit) \<times> fs" where
  "unlink_each e fs [] = (Inr (), fs)"
| "unlink_each e fs (b # bs) =
     (case unlink e fs (path b) of
        Inl err \<Rightarrow> (Inl err, fs)
      | Inr fs' \<Rightarrow> unlink_each e fs' bs)"

definition toRemove :: "env \<Rightarrow> fs \<Rightarrow> backup list" where
  "toRemove e fs =
     slice_from (filter (\<lambda>b. \<not> protected b) (listBackups e fs)) (BACKUP_RETENTION e)"

definition cleanOldBackups :: "env \<Rightarrow> fs \<Rightarrow> (error + unit) \<times> fs" where
  "cleanOldBackups e fs =
     (let retention = BACKUP_RETENTION e;
          allBackups = listBackups e fs;
          unprotectedBackups = filter (\<lambda>b. \<not> protected b) allBackups;
          protectedBackups = filter (\<lambda>b. protected b) allBackups
      in if length_le (length unprotectedBackups) retention then (Inr (), fs)
         else (case unlink_each e fs (toRemove e fs) of
                 (Inl err, fs') \<Rightarrow> (Inr (), fs')   \<comment> \<open>\<open>catch\<close>: the error is logged\<close>
               | (Inr u, fs') \<Rightarrow> (Inr (), fs')))"

subsection \<open>Deleting a backup\<close>

definition deleteBackup :: "env \<Rightarrow> fs \<Rightarrow> path \<Rightarrow> (error + bool) \<times> fs" where
  "deleteBackup e fs backupPath =
     (if \<not> exists e fs backupPath then (Inl (Error (''Backup not found: '' @ backupPath)), fs)
      else (case unlink e fs backupPath of
              Inl err \<Rightarrow> (Inl err, fs)
            | Inr fs' \<Rightarrow> (Inr True, fs')))"

text \<open>The route \<open>DELETE /api/backups/:filename\<close> of the web server: status code and JSON
  body of the response.\<close>

definition message :: "error \<Rightarrow> string" where
  "message err =
     (case err of Error m \<Rightarrow> m | TypeError m \<Rightarrow> m | RangeError m \<Rightarrow> m | SyntaxError m \<Rightarrow> m)"

definition delete_backup_route :: "env \<Rightarrow> fs \<Rightarrow> string \<Rightarrow> (nat \<times> (string \<times> jval) list) \<times> fs" where
  "delete_backup_route e fs filename =
     (let backupPath = path_join ''/backup/github-sync'' filename
      in (case deleteBackup e fs backupPath of
            (Inr ok, fs') \<Rightarrow>
              ((200, [(''success'', JBool True), (''message'', JStr ''Backup deleted'')]), fs')
          | (Inl err, fs') \<Rightarrow> ((500, [(''error'', JStr (message err))]), fs')))"

subsection \<open>Creating a backup\<close>

text \<open>\<open>tar -czf archive -C sourcePath .\<close> archives every file below \<open>sourcePath\<close>.\<close>

definition tree_below :: "path \<Rightarrow> fs \<Rightarrow> (string \<times> content) list" where
  "tree_below d fs =
     map (\<lambda>(p, f). (drop (length d + 1) p, content f)) (filter (\<lambda>(p, f). is_under d p) fs)"

definition createBackup :: "env \<Rightarrow> fs \<Rightarrow> path \<Rightarrow> (error + path) \<times> fs" where
  "createBackup e fs sourcePath =
     (let timestamp = map (\<lambda>c. if c = CHR '':'' \<or> c = CHR ''.'' then CHR ''-'' else c) (now_iso e);
          backupName = ''config-backup-'' @ timestamp;
          backupPath = path_join BACKUP_DIR backupName
      in (case mkdir e BACKUP_DIR of
            Inl err \<Rightarrow> (Inl err, fs)
          | Inr u \<Rightarrow>
              (if fault e Exec (backupPath @ ''.tar.gz'') then (Inl (Error ''Command failed: tar''), fs)
               else (Inr (backupPath @ ''.tar.gz''),
                     AList.update (backupPath @ ''.tar.gz'')
                       \<lparr>content = Archive (tree_below sourcePath fs), mtime = now e\<rparr> fs))))"

subsection \<open>Notions used to state the properties of the backup store\<close>

text \<open>The paths that \<open>listBackups\<close> takes for backups: the files directly in
  \<open>BACKUP_DIR\<close> whose name ends in \<open>.tar.gz\<close>.\<close>

definition is_backup_path :: "path \<Rightarrow> bool" where
  "is_backup_path p =
     (is_under BACKUP_DIR p \<and> CHR ''/'' \<notin> set (drop (length BACKUP_DIR + 1) p) \<and>
      endsWith (drop (length BACKUP_DIR + 1) p) ''.tar.gz'')"

text \<open>The file system without the files whose path is in \<open>D\<close>.\<close>

definition remove_paths :: "path set \<Rightarrow> fs \<Rightarrow> fs" where
  "remove_paths D fs = filter (\<lambda>(q, f). q \<notin> D) fs"

text \<open>
  An example: four backups, of which \<open>d\<close> is the oldest and is protected, and one
  configuration file. \<open>retention_env r\<close> is the environment in which nothing fails and
  \<open>BACKUP_RETENTION\<close> is the string \<open>r\<close>; in \<open>unlink_fails r p\<close> the file \<open>p\<close> cannot be
  deleted.
\<close>

definition example_fs :: fs where
  "example_fs =
     [(''/backup/github-sync/a.tar.gz'', \<lparr>content = Archive [], mtime = 10\<rparr>),
      (''/backup/github-sync/b.tar.gz'', \<lparr>content = Archive [], mtime = 30\<rparr>),
      (''/backup/github-sync/c.tar.gz'', \<lparr>content = Archive [], mtime = 20\<rparr>),
      (''/backup/github-sync/d.tar.gz'', \<lparr>content = Archive [], mtime = 5\<rparr>),
      (''/backup/github-sync/.protected-backups.json'',
         \<lparr>content = Json (JArr [JStr ''d.tar.gz'']), mtime = 6\<rparr>),
      (''/config/configuration.yaml'', \<lparr>content = Raw ''homeassistant:'', mtime = 1\<rparr>)]"

definition retention_env :: "string \<Rightarrow> env" where
  "retention_env r =
     (quiet_env 100 ''k3j9x0'')
       \<lparr>process_env := (\<lambda>v. if v = ''BACKUP_RETENTION'' then Some r else None)\<rparr>"

definition unlink_fails :: "string \<Rightarrow> path \<Rightarrow> env" where
  "unlink_fails r p0 = (retention_env r)\<lparr>fault := (\<lambda>op p. op = Unlink \<and> p = p0)\<rparr>"

section \<open>Tracked sync (trackedSync.js)\<close>

definition STATE_FILE :: path where
  "STATE_FILE = ''/backup/github-sync/.synced-files.json''"

text \<open>\<open>try { body } catch (error) { handler }\<close>.\<close>

definition try_catch :: "error + 'a \<Rightarrow> (error \<Rightarrow> error + 'a) \<Rightarrow> error + 'a" where
  "try_catch body handler = (case body of Inl err \<Rightarrow> handler err | Inr v \<Rightarrow> Inr v)"

definition loadSyncedFiles :: "env \<Rightarrow> fs \<Rightarrow> error + jval" where
  "loadSyncedFiles e fs =
     try_catch
       (if exists e fs STATE_FILE
        then (case readFile e fs STATE_FILE of
                Inl err \<Rightarrow> Inl err
              | Inr data \<Rightarrow> JSON_parse data)
        else Inr (JArr []))
       (\<lambda>err. Inr (JArr []))"    \<comment> \<open>the error is logged\<close>

definition saveSyncedFiles :: "env \<Rightarrow> fs \<Rightarrow> string list \<Rightarrow> fs" where
  "saveSyncedFiles e fs files =
     (case mkdir e (dirname STATE_FILE) of
        Inl err \<Rightarrow> fs          \<comment> \<open>\<open>catch\<close>: the error is logged\<close>
      | Inr u \<Rightarrow>
          (case writeFile e fs STATE_FILE (Json (JArr (map JStr files))) of
             Inl err \<Rightarrow> fs
           | Inr fs' \<Rightarrow> fs'))"

text \<open>\<open>s.trim()\<close> removes the white space and the line terminators at both ends of
  \<open>s\<close>; among the characters below 256 these are the space, the tab, the line feed, the
  vertical tab, the form feed, the carriage return and the no-break space.\<close>

definition is_white_space :: "char \<Rightarrow> bool" where
  "is_white_space c =
     (c = CHR '' '' \<or> c = CHR 0x09 \<or> c = CHR 0x0A \<or> c = CHR 0x0B \<or> c = CHR 0x0C \<or>
      c = CHR 0x0D \<or> c = CHR 0xA0)"

definition trim :: "string \<Rightarrow> string" where
  "trim s = rev (dropWhile is_white_space (rev (dropWhile is_white_space s)))"

text \<open>
  \<open>getGitTrackedFiles(gitRepoPath)\<close>: \<open>git ls-files\<close> is run in \<open>gitRepoPath\<close> and the
  files are \<open>stdout.trim().split('\n').filter(f => f.length > 0)\<close>; an error is logged
  and thrown again.
\<close>

definition getGitTrackedFiles :: "env \<Rightarrow> path \<Rightarrow> error + string list" where
  "getGitTrackedFiles e gitRepoPath =
     (case git_ls_files e of
        Inl err \<Rightarrow> Inl err
      | Inr stdout \<Rightarrow> Inr (filter (\<lambda>f. f \<noteq> []) (split_on CHR 0x0A (trim stdout))))"

definition copyFile :: "env \<Rightarrow> fs \<Rightarrow> path \<Rightarrow> path \<Rightarrow> error + fs" where
  "copyFile e fs sourcePath destPath =
     (case mkdir e (dirname destPath) of
        Inl err \<Rightarrow> Inl (Error (''Failed to copy '' @ sourcePath @ '' to '' @ destPath))
      | Inr u \<Rightarrow>
          (if fault e CopyFile destPath
           then Inl (Error (''Failed to copy '' @ sourcePath @ '' to '' @ destPath))
           else (case map_of fs sourcePath of
                   None \<Rightarrow> Inl (Error (''Failed to copy '' @ sourcePath @ '' to '' @ destPath))
                 | Some f \<Rightarrow>
                     Inr (AList.update destPath \<lparr>content = content f, mtime = now e\<rparr> fs))))"

text \<open>The first loop: every tracked file is copied; a failing copy is logged and counted
  as skipped. The state is the file system with \<open>copiedCount\<close> and \<open>skippedCount\<close>.\<close>

fun copy_files :: "env \<Rightarrow> path \<Rightarrow> path \<Rightarrow> string list \<Rightarrow> fs \<times> nat \<times> nat \<Rightarrow> fs \<times> nat \<times> nat" where
  "copy_files e gitRepoPath targetPath [] st = st"
| "copy_files e gitRepoPath targetPath (relativeFile # rest) (fs, copiedCount, skippedCount) =
     (case copyFile e fs (path_join_norm gitRepoPath relativeFile)
                      (path_join_norm targetPath relativeFile) of
        Inr fs' \<Rightarrow> copy_files e gitRepoPath targetPath rest (fs', copiedCount + 1, skippedCount)
      | Inl err \<Rightarrow> copy_files e gitRepoPath targetPath rest (fs, copiedCount, skippedCount + 1))"

text \<open>
  The second loop, over \<open>filesToDelete\<close>. \<open>path.join(targetPath, relativeFile)\<close> stands
  before the inner \<open>try\<close>, so its \<open>TypeError\<close> on an element that is not a string leaves
  the loop. A failing \<open>unlink\<close> is logged and the loop goes on. The state is the file
  system with \<open>deletedCount\<close>.
\<close>

fun delete_files :: "env \<Rightarrow> path \<Rightarrow> jval list \<Rightarrow> fs \<times> nat \<Rightarrow> (error + unit) \<times> fs \<times> nat" where
  "delete_files e targetPath [] st = (Inr (), st)"
| "delete_files e targetPath (JStr relativeFile # rest) (fs, deletedCount) =
     (let filePath = path_join_norm targetPath relativeFile
      in (case (if exists e fs filePath
                then (case unlink e fs filePath of
                        Inl err \<Rightarrow> Inl err
                      | Inr fs' \<Rightarrow> Inr (fs', deletedCount + 1))
                else Inr (fs, deletedCount)) of
            Inl err \<Rightarrow> delete_files e targetPath rest (fs, deletedCount)
          | Inr st' \<Rightarrow> delete_files e targetPath rest st'))"
| "delete_files e targetPath (v # rest) st =
     (Inl (TypeError ''The path argument must be of type string''), st)"

record sync_result =
  copied :: nat
  deleted :: nat
  skipped :: nat
  tracked :: nat

text \<open>
  \<open>trackedSync(gitRepoPath, targetPath)\<close>. \<open>previouslySyncedFiles.filter\<close> throws a
  \<open>TypeError\<close> when the stored document is not an array; \<open>currentGitFiles.includes(f)\<close>
  is false for an element that is not a string.
\<close>

definition trackedSync :: "env \<Rightarrow> fs \<Rightarrow> path \<Rightarrow> path \<Rightarrow> (error + sync_result) \<times> fs" where
  "trackedSync e fs gitRepoPath targetPath =
     (case getGitTrackedFiles e gitRepoPath of
        Inl err \<Rightarrow> (Inl err, fs)
      | Inr currentGitFiles \<Rightarrow>
          (case loadSyncedFiles e fs of
             Inl err \<Rightarrow> (Inl err, fs)
           | Inr previouslySyncedFiles \<Rightarrow>
               (case copy_files e gitRepoPath targetPath currentGitFiles (fs, 0, 0) of
                  (fs1, copiedCount, skippedCount) \<Rightarrow>
                    (case previouslySyncedFiles of
                       JArr prev \<Rightarrow>
                         (let filesToDelete =
                                filter (\<lambda>f. case f of JStr s \<Rightarrow> \<not> List.member currentGitFiles s
                                                     | _ \<Rightarrow> True) prev
                          in (case delete_files e targetPath filesToDelete (fs1, 0) of
                                (Inl err, fs2, deletedCount) \<Rightarrow> (Inl err, fs2)
                              | (Inr u, fs2, deletedCount) \<Rightarrow>
                                  (Inr \<lparr>copied = copiedCount, deleted = deletedCount,
                                        skipped = skippedCount,
                                        tracked = length currentGitFiles\<rparr>,
                                   saveSyncedFiles e fs2 currentGitFiles)))
                     | _ \<Rightarrow> (Inl (TypeError ''previouslySyncedFiles.filter is not a function''),
                             fs1)))))"

subsection \<open>Notions used to state the properties of tracked sync\<close>

text \<open>\<^emph>\<open>Current\<close>, the list that the code reads from \<open>git ls-files\<close> at this run, and
  \<^emph>\<open>Previous\<close>, the list that the state file holds (empty when there is no such list).\<close>

definition current_files :: "env \<Rightarrow> string list" where
  "current_files e = (case getGitTrackedFiles e [] of Inr files \<Rightarrow> files | Inl err \<Rightarrow> [])"



text \<open>The state file is absent, cannot be read, or does not hold JSON.\<close>

definition state_file_unusable :: "env \<Rightarrow> fs \<Rightarrow> bool" where
  "state_file_unusable e fs =
     (case map_of fs STATE_FILE of
        None \<Rightarrow> True
      | Some f \<Rightarrow> fault e ReadFile STATE_FILE \<or> (case content f of Json v \<Rightarrow> False | _ \<Rightarrow> True))"


definition corrupt_state_fs :: fs where
  "corrupt_state_fs =
     [(''/config/secrets.yaml'', \<lparr>content = Raw ''api_key: 123'', mtime = 1\<rparr>),
      (''/config/b.yaml'', \<lparr>content = Raw ''old'', mtime = 2\<rparr>),
      (''/backup/github-sync/.synced-files.json'', \<lparr>content = Raw ''[ b.ya'', mtime = 3\<rparr>),
      (''/tmp/github-sync-temp/a.yaml'', \<lparr>content = Raw ''new'', mtime = 4\<rparr>)]"


definition spaced_name_fs :: fs where
  "spaced_name_fs =
     [(''/config/z'', \<lparr>content = Raw ''mine'', mtime = 1\<rparr>),
      (''/tmp/github-sync-temp/z '', \<lparr>content = Raw ''tracked'', mtime = 2\<rparr>),
      (''/tmp/github-sync-temp/zz'', \<lparr>content = Raw ''tracked too'', mtime = 3\<rparr>)]"

definition sync_env :: "string list \<Rightarrow> env" where
  "sync_env files =
     (quiet_env 200 ''k3j9x0'')\<lparr>git_ls_files := Inr (concat (map (\<lambda>f. f @ [CHR 0x0A]) files))\<rparr>"

section \<open>The restart scheduler (restartManager.js)\<close>

text \<open>
  A promise is pending, fulfilled with a value or rejected with an error; \<open>resolve\<close> and
  \<open>reject\<close> act on a pending promise only, a settled promise keeps its state.
\<close>

datatype 'a promise = Pending | Fulfilled 'a | Rejected error

definition resolve :: "'a promise \<Rightarrow> 'a \<Rightarrow> 'a promise" where
  "resolve p v = (case p of Pending \<Rightarrow> Fulfilled v | _ \<Rightarrow> p)"

definition reject :: "'a promise \<Rightarrow> error \<Rightarrow> 'a promise" where
  "reject p err = (case p of Pending \<Rightarrow> Rejected err | _ \<Rightarrow> p)"

text \<open>
  The module state \<open>restartTimer\<close> and \<open>restartScheduledTime\<close>, with the part of the
  runtime the module acts on: the armed timers of the event loop (handle and the token
  that the callback captured), the promise that each call of \<open>scheduleRestart\<close> created
  (under the handle of its timer), and the number of restart requests sent to the
  supervisor.
\<close>

record restart_state =
  restartTimer :: "nat option"
  restartScheduledTime :: "nat option"
  timers :: "(nat \<times> string) list"
  promises :: "(nat \<times> (string \<times> jval) list promise) list"
  next_handle :: nat
  restart_requests :: nat

definition idle :: restart_state where
  "idle = \<lparr>restartTimer = None, restartScheduledTime = None, timers = [], promises = [],
           next_handle = 0, restart_requests = 0\<rparr>"

definition clearTimeout :: "nat \<Rightarrow> restart_state \<Rightarrow> restart_state" where
  "clearTimeout h rs = rs\<lparr>timers := filter (\<lambda>(k, token). k \<noteq> h) (timers rs)\<rparr>"

text \<open>
  \<open>scheduleRestart(delaySeconds)\<close>. The executor of \<open>new Promise\<close> arms the timer and then
  calls \<open>resolve({ scheduled: true, executed: false, delaySeconds })\<close> at once. The result
  is the state of the returned promise and the new state.
\<close>

definition scheduleRestart ::
  "env \<Rightarrow> restart_state \<Rightarrow> nat \<Rightarrow> (string \<times> jval) list promise \<times> restart_state" where
  "scheduleRestart e rs delaySeconds =
     (if process_env e ''AUTO_RESTART'' \<noteq> Some ''true''
      then (Fulfilled [(''scheduled'', JBool False), (''reason'', JStr ''Auto-restart disabled'')],
            rs)
      else if falsy (process_env e ''SUPERVISOR_TOKEN'')
      then (Fulfilled [(''scheduled'', JBool False), (''reason'', JStr ''No supervisor token'')],
            rs)
      else
        (let token = the (process_env e ''SUPERVISOR_TOKEN'');
             rs1 = (case restartTimer rs of Some h \<Rightarrow> clearTimeout h rs | None \<Rightarrow> rs);
             rs2 = rs1\<lparr>restartScheduledTime := Some (now e + delaySeconds * 1000)\<rparr>;
             h = next_handle rs2;
             rs3 = rs2\<lparr>timers := timers rs2 @ [(h, token)], next_handle := h + 1,
                       restartTimer := Some h\<rparr>;
             p = resolve Pending [(''scheduled'', JBool True), (''executed'', JBool False),
                                  (''delaySeconds'', JNum (int delaySeconds))]
         in (p, rs3\<lparr>promises := (h, p) # promises rs3\<rparr>)))"

text \<open>
  The timer with handle \<open>h\<close> fires: its callback sends the restart request
  (\<open>executeRestart(token)\<close>, whose outcome is \<open>restart_call\<close>), clears the module state and
  calls \<open>resolve({ scheduled: true, executed: true })\<close> or \<open>reject(error)\<close> on the promise
  of its call. A timer that is not armed does not fire.
\<close>

definition fire_timer :: "env \<Rightarrow> restart_state \<Rightarrow> nat \<Rightarrow> restart_state" where
  "fire_timer e rs h =
     (case map_of (timers rs) h of
        None \<Rightarrow> rs
      | Some token \<Rightarrow>
          (let rs1 = rs\<lparr>timers := filter (\<lambda>(k, t). k \<noteq> h) (timers rs),
                         restart_requests := restart_requests rs + 1\<rparr>;
               rs2 = rs1\<lparr>restartTimer := None, restartScheduledTime := None\<rparr>
           in (case restart_call e of
                 None \<Rightarrow>
                   rs2\<lparr>promises :=
                         AList.map_entry h
                           (\<lambda>p. resolve p [(''scheduled'', JBool True), (''executed'', JBool True)])
                           (promises rs2)\<rparr>
               | Some err \<Rightarrow>
                   rs2\<lparr>promises := AList.map_entry h (\<lambda>p. reject p err) (promises rs2)\<rparr>)))"

definition cancelRestart :: "restart_state \<Rightarrow> (string \<times> jval) list \<times> restart_state" where
  "cancelRestart rs =
     (case restartTimer rs of
        None \<Rightarrow> ([(''cancelled'', JBool False), (''reason'', JStr ''No restart scheduled'')], rs)
      | Some h \<Rightarrow>
          ([(''cancelled'', JBool True)],
           (clearTimeout h rs)\<lparr>restartTimer := None, restartScheduledTime := None\<rparr>))"

text \<open>An environment with restarts enabled in which the supervisor answers the restart
  request with an error.\<close>

definition restart_fails_env :: env where
  "restart_fails_env =
     (quiet_env 1000 ''k3j9x0'')
       \<lparr>process_env := (\<lambda>v. if v = ''AUTO_RESTART'' then Some ''true''
                             else if v = ''SUPERVISOR_TOKEN'' then Some ''token'' else None),
        restart_call := Some (Error ''Supervisor API returned 500'')\<rparr>"

section \<open>The sync pipeline (gitSync.js)\<close>

definition tempDir :: path where
  "tempDir = ''/tmp/github-sync-temp''"

definition validationDir :: path where
  "validationDir = ''/tmp/github-sync-validation''"

text \<open>\<open>process.env.V || d\<close>.\<close>

definition env_or :: "env \<Rightarrow> string \<Rightarrow> string \<Rightarrow> string" where
  "env_or e v d = (case process_env e v of None \<Rightarrow> d | Some s \<Rightarrow> if s = [] then d else s)"

definition SYNC_PATH :: "env \<Rightarrow> path" where
  "SYNC_PATH e = env_or e ''SYNC_PATH'' ''/config''"

definition GIT_BRANCH :: "env \<Rightarrow> string" where
  "GIT_BRANCH e = env_or e ''GIT_BRANCH'' ''main''"

definition BACKUP_ENABLED :: "env \<Rightarrow> bool" where
  "BACKUP_ENABLED e = (process_env e ''BACKUP_ENABLED'' = Some ''true'')"

text \<open>\<open>git.clone(repoUrl, dir, options)\<close> writes the tree of the repository below
  \<open>dir\<close>.\<close>

definition git_clone_into :: "env \<Rightarrow> fs \<Rightarrow> path \<Rightarrow> error + fs" where
  "git_clone_into e fs dir =
     (case git_clone e of
        Inl err \<Rightarrow> Inl err
      | Inr tree \<Rightarrow> Inr (foldl (\<lambda>acc (rel, f). AList.update (path_join dir rel) f acc) fs tree))"

text \<open>
  Sequencing of statements that may throw: \<open>and_then m k\<close> runs \<open>k\<close> on the value and
  state of \<open>m\<close> unless \<open>m\<close> threw; \<open>fs_step fs r\<close> makes a statement of a system call that
  returns the new file system.
\<close>

definition and_then ::
  "(error + 'a) \<times> 's \<Rightarrow> ('a \<Rightarrow> 's \<Rightarrow> (error + 'b) \<times> 's) \<Rightarrow> (error + 'b) \<times> 's" where
  "and_then m k = (case m of (Inl err, s) \<Rightarrow> (Inl err, s) | (Inr v, s) \<Rightarrow> k v s)"

definition fs_step :: "fs \<Rightarrow> error + fs \<Rightarrow> (error + unit) \<times> fs" where
  "fs_step fs r = (case r of Inl err \<Rightarrow> (Inl err, fs) | Inr fs' \<Rightarrow> (Inr (), fs'))"

text \<open>
  Steps 1 to 5 of the \<open>try\<close> block of \<open>syncFromGitHub\<close>, everything before
  \<open>Step 6: Apply changes\<close>. The result is \<open>backupPath\<close>.
\<close>

definition steps_before_apply :: "env \<Rightarrow> fs \<Rightarrow> (error + path option) \<times> fs" where
  "steps_before_apply e fs0 =
     (let syncPath = SYNC_PATH e;
          backupEnabled = BACKUP_ENABLED e;
          gitDir = path_join tempDir ''.git''
      in
      \<comment> \<open>Step 1: clean up any previous temp directory\<close>
      and_then (fs_step fs0 (if exists e fs0 tempDir then removeDirectory e fs0 tempDir
                             else Inr fs0))
      (\<lambda>u fs.
      \<comment> \<open>Step 2: create backup if enabled\<close>
      and_then (if backupEnabled
                then (case createBackup e fs syncPath of
                        (Inl err, fs') \<Rightarrow> (Inl err, fs')
                      | (Inr created_path, fs') \<Rightarrow> (Inr (Some created_path), fs'))
                else (Inr None, fs))
      (\<lambda>backupPath fs.
      \<comment> \<open>Step 3: clone repository to temp directory\<close>
      and_then (case repo_url e of Inl err \<Rightarrow> (Inl err, fs) | Inr url \<Rightarrow> (Inr url, fs))
      (\<lambda>repoUrl fs.
      and_then (fs_step fs
                 (case git_clone_into e fs tempDir of
                    Inl err \<Rightarrow> Inl (Error (''Failed to clone repository: '' @ message err))
                  | Inr fs' \<Rightarrow> Inr fs'))
      (\<lambda>u fs.
      \<comment> \<open>Step 4: remove the .git directory from temp\<close>
      and_then (fs_step fs (if exists e fs gitDir then removeDirectory e fs gitDir else Inr fs))
      (\<lambda>u fs.
      \<comment> \<open>Step 5: validate in a validation directory\<close>
      and_then (fs_step fs (if exists e fs validationDir then removeDirectory e fs validationDir
                            else Inr fs))
      (\<lambda>u fs.
      and_then (fs_step fs (copyDirectory e fs syncPath validationDir False))
      (\<lambda>u fs.
      and_then (fs_step fs (copyDirectory e fs tempDir validationDir True))
      (\<lambda>u fs.
      and_then (fs_step fs (removeDirectory e fs validationDir))
      (\<lambda>u fs. (Inr backupPath, fs)))))))))))"

text \<open>
  Steps 6 to 10. \<open>cleanOldBackups\<close> and \<open>scheduleRestart\<close> are awaited: a thrown error
  or a rejected promise would leave the \<open>try\<close> block.
\<close>

definition apply_and_finish ::
  "env \<Rightarrow> fs \<Rightarrow> restart_state \<Rightarrow> jval
     \<Rightarrow> (error + (string \<times> jval) list) \<times> fs \<times> restart_state" where
  "apply_and_finish e fs rs syncId =
     (case copyDirectory e fs tempDir (SYNC_PATH e) True of      \<comment> \<open>Step 6\<close>
        Inl err \<Rightarrow> (Inl err, fs, rs)
      | Inr fs1 \<Rightarrow>
          (case removeDirectory e fs1 tempDir of                \<comment> \<open>Step 7\<close>
             Inl err \<Rightarrow> (Inl err, fs1, rs)
           | Inr fs2 \<Rightarrow>
               (case (if BACKUP_ENABLED e then cleanOldBackups e fs2 else (Inr (), fs2)) of
                  (Inl err, fs3) \<Rightarrow> (Inl err, fs3, rs)           \<comment> \<open>Step 8\<close>
                | (Inr u, fs3) \<Rightarrow>
                    (let restarted = (process_env e ''AUTO_RESTART'' = Some ''true'')
                     in (case (if restarted then scheduleRestart e rs 10
                               else (Fulfilled [], rs)) of       \<comment> \<open>Step 9\<close>
                           (Rejected err, rs1) \<Rightarrow> (Inl err, fs3, rs1)
                         | (p, rs1) \<Rightarrow>
                             (case updateSyncEntry e fs3 syncId
                                     [(''status'', JStr ''success''),
                                      (''message'', JStr ''Sync completed successfully''),
                                      (''duration'', JNum (int (elapsed e))),
                                      (''backupCreated'', JBool (BACKUP_ENABLED e))] of
                                (Inl err, fs4) \<Rightarrow> (Inl err, fs4, rs1)
                              | (Inr u', fs4) \<Rightarrow>
                                  (Inr [(''success'', JBool True), (''syncId'', syncId),
                                        (''duration'', JNum (int (elapsed e)))],
                                   fs4, rs1)))))))"

text \<open>The \<open>catch\<close> block: clean up the temp directory, record the failure, throw the
  error again.\<close>

definition handle_failure ::
  "env \<Rightarrow> fs \<Rightarrow> restart_state \<Rightarrow> jval \<Rightarrow> error
     \<Rightarrow> (error + (string \<times> jval) list) \<times> fs \<times> restart_state" where
  "handle_failure e fs rs syncId error =
     (case (if exists e fs tempDir then removeDirectory e fs tempDir else Inr fs) of
        Inl err \<Rightarrow> (Inl err, fs, rs)
      | Inr fs1 \<Rightarrow>
          (case updateSyncEntry e fs1 syncId
                  [(''status'', JStr ''failed''), (''message'', JStr ''Sync failed''),
                   (''error'', JStr (message error)),
                   (''duration'', JNum (int (elapsed e)))] of
             (Inl err, fs2) \<Rightarrow> (Inl err, fs2, rs)
           | (Inr u, fs2) \<Rightarrow> (Inl error, fs2, rs)))"

definition sync_entry :: "env \<Rightarrow> string \<Rightarrow> nat \<Rightarrow> (string \<times> jval) list" where
  "sync_entry e syncType commits =
     [(''type'', JStr syncType), (''branch'', JStr (GIT_BRANCH e)),
      (''commits'', JNum (int commits)), (''message'', JStr ''Sync started''),
      (''status'', JStr ''in_progress'')]"

text \<open>
  \<open>syncFromGitHub(syncType, metadata)\<close>, with \<open>commits\<close> for \<open>metadata.commits || 0\<close>. The
  notifications have no effect on the file system or on the restart state and are left
  out.
\<close>

definition syncFromGitHub ::
  "env \<Rightarrow> fs \<Rightarrow> restart_state \<Rightarrow> string \<Rightarrow> nat
     \<Rightarrow> (error + (string \<times> jval) list) \<times> fs \<times> restart_state" where
  "syncFromGitHub e fs rs syncType commits =
     (case addSyncEntry e fs (sync_entry e syncType commits) of
        (Inl err, fs0) \<Rightarrow> (Inl err, fs0, rs)
      | (Inr ident, fs0) \<Rightarrow>
          (let syncId = (case ident of Some v \<Rightarrow> v | None \<Rightarrow> JNull)
           in (case steps_before_apply e fs0 of
                 (Inl error, fs1) \<Rightarrow> handle_failure e fs1 rs syncId error
               | (Inr backupPath, fs1) \<Rightarrow>
                   (case apply_and_finish e fs1 rs syncId of
                      (Inl error, fs2, rs2) \<Rightarrow> handle_failure e fs2 rs2 syncId error
                    | (Inr result, fs2, rs2) \<Rightarrow> (Inr result, fs2, rs2)))))"

subsection \<open>Notions used to state the properties of the pipeline\<close>

text \<open>The run fails before the apply step: \<open>addSyncEntry\<close> throws, or one of the steps
  1 to 5 does.\<close>

definition fails_before_apply :: "env \<Rightarrow> fs \<Rightarrow> string \<Rightarrow> nat \<Rightarrow> bool" where
  "fails_before_apply e fs syncType commits =
     (case addSyncEntry e fs (sync_entry e syncType commits) of
        (Inl err, fs0) \<Rightarrow> True
      | (Inr ident, fs0) \<Rightarrow>
          (case fst (steps_before_apply e fs0) of Inl err \<Rightarrow> True | Inr v \<Rightarrow> False))"

text \<open>The files inside the directory \<open>d\<close>, with path, content and modification time.\<close>

definition files_below :: "path \<Rightarrow> fs \<Rightarrow> fs" where
  "files_below d fs = filter (\<lambda>(p, f). is_under d p) fs"

text \<open>Neither of the two paths is the other or lies inside the other.\<close>

definition independent :: "path \<Rightarrow> path \<Rightarrow> bool" where
  "independent a b = (a \<noteq> b \<and> \<not> is_under a b \<and> \<not> is_under b a)"

text \<open>An example: a target with two files, a stale backup, and an environment with
  backups enabled in which the clone fails.\<close>

definition target_fs :: fs where
  "target_fs =
     [(''/config/configuration.yaml'', \<lparr>content = Raw ''homeassistant:'', mtime = 1\<rparr>),
      (''/config/secrets.yaml'', \<lparr>content = Raw ''api_key: 123'', mtime = 2\<rparr>),
      (''/tmp/github-sync-temp/stale.yaml'', \<lparr>content = Raw ''stale'', mtime = 3\<rparr>)]"

definition clone_fails_env :: env where
  "clone_fails_env =
     (quiet_env 7 ''k3j9x0'')
       \<lparr>process_env := (\<lambda>v. if v = ''BACKUP_ENABLED'' then Some ''true'' else None),
        git_clone := Inl (Error ''Authentication failed'')\<rparr>"

section \<open>Properties of paths\<close>

text \<open>On an absolute directory and a relative path that are made of plain segments,
  \<open>path.join\<close> is the join alone.\<close>

lemma split_on_no_sep: "c \<notin> set s \<Longrightarrow> split_on c s = [s]"
  by (induction s) auto

lemma split_on_append_sep:
  "c \<notin> set s \<Longrightarrow> split_on c (s @ c # t) = s # split_on c t"
  by (induction s) auto

lemma split_on_join_slash:
  "segs \<noteq> [] \<Longrightarrow> list_all (\<lambda>seg. CHR ''/'' \<notin> set seg) segs \<Longrightarrow>
   split_on CHR ''/'' (join_slash segs) = segs"
proof (induction segs rule: join_slash.induct)
  case 1
  then show ?case by simp
next
  case (2 seg)
  then show ?case by (simp add: split_on_no_sep)
next
  case (3 seg v va)
  then show ?case using split_on_append_sep [of "CHR ''/''" seg "join_slash (v # va)"] by simp
qed

lemma normalizeString_plain:
  "list_all plain_segment segs \<Longrightarrow> normalizeString a res segs = rev res @ segs"
  by (induction segs arbitrary: res) (auto simp: plain_segment_def)

lemma join_slash_append:
  "xs \<noteq> [] \<Longrightarrow> ys \<noteq> [] \<Longrightarrow> join_slash (xs @ ys) = join_slash xs @ ''/'' @ join_slash ys"
  by (induction xs rule: join_slash.induct) (auto, (cases ys; simp))

lemma join_slash_last:
  "segs \<noteq> [] \<Longrightarrow> list_all plain_segment segs \<Longrightarrow>
   join_slash segs \<noteq> [] \<and> last (join_slash segs) \<noteq> CHR ''/''"
proof (induction segs rule: join_slash.induct)
  case 1
  then show ?case by simp
next
  case (2 seg)
  then have n: "seg \<noteq> []" and s: "CHR ''/'' \<notin> set seg" by (simp_all add: plain_segment_def)
  from n have "last seg \<in> set seg" by (rule last_in_set)
  with s have "last seg \<noteq> CHR ''/''" by metis
  with n show ?case by simp
next
  case (3 seg v va)
  then show ?case by (auto simp: plain_segment_def)
qed

lemma path_normalize_plain:
  assumes "segs \<noteq> []" "list_all plain_segment segs"
  shows "path_normalize (''/'' @ join_slash segs) = ''/'' @ join_slash segs"
proof -
  have ns: "list_all (\<lambda>seg. CHR ''/'' \<notin> set seg) segs"
    using assms(2) by (simp add: list_all_iff plain_segment_def)
  have sp: "split_on CHR ''/'' (''/'' @ join_slash segs) = [] # segs"
    using split_on_join_slash [OF assms(1) ns] by simp
  have nz: "normalizeString False [] ([] # segs) = segs"
    using normalizeString_plain [OF assms(2), of False "[]"] by simp
  from join_slash_last [OF assms] have l: "join_slash segs \<noteq> []" "last (join_slash segs) \<noteq> CHR ''/''"
    by simp_all
  then have tr: "take 1 (rev (''/'' @ join_slash segs)) \<noteq> ''/''"
    by (cases "join_slash segs" rule: rev_cases) auto
  show ?thesis
    using sp nz l(1) tr by (simp add: path_normalize_def Let_def)
qed

lemma path_join_norm_plain:
  assumes "ds \<noteq> []" "rs \<noteq> []" "list_all plain_segment ds" "list_all plain_segment rs"
  shows "path_join_norm (''/'' @ join_slash ds) (join_slash rs)
           = path_join (''/'' @ join_slash ds) (join_slash rs)"
proof -
  have r: "join_slash rs \<noteq> []" using join_slash_last [OF assms(2,4)] by simp
  have j: "(''/'' @ join_slash ds) @ ''/'' @ join_slash rs = ''/'' @ join_slash (ds @ rs)"
    using join_slash_append [OF assms(1,2)] by simp
  have "path_normalize (''/'' @ join_slash (ds @ rs)) = ''/'' @ join_slash (ds @ rs)"
    using assms by (intro path_normalize_plain) simp_all
  with j r show ?thesis by (simp add: path_join_norm_def path_join_def Let_def)
qed

lemma path_join_norm_examples:
  "path_join_norm ''/config'' ''./secrets.yaml'' = ''/config/secrets.yaml''"
  "path_join_norm ''/config'' ''a/../../x/'' = ''/x/''"
  "path_join_norm ''/config'' '''' = ''/config''"
  by code_simp+

section \<open>Properties of the webhook verifier\<close>

lemma utf8_char_not_empty: "utf8_char c \<noteq> []"
  by (simp add: utf8_char_def Let_def)

text \<open>The UTF-8 encoding of one character is a prefix code.\<close>

lemma utf8_char_inj: "utf8_char c @ xs = utf8_char d @ ys \<Longrightarrow> c = d \<and> xs = ys"
proof -
  assume a: "utf8_char c @ xs = utf8_char d @ ys"
  define n where "n = (of_char c :: nat)"
  define m where "m = (of_char d :: nat)"
  have dm: "n < 128 \<and> m < 128 \<and> n = m \<and> xs = ys
          \<or> n div 64 = m div 64 \<and> n mod 64 = m mod 64 \<and> xs = ys"
    using a unfolding utf8_char_def Let_def n_def [symmetric] m_def [symmetric]
    by (auto split: if_splits)
  have "n = m \<and> xs = ys"
    using dm by (metis div_mult_mod_eq)
  then show ?thesis unfolding n_def m_def by simp
qed

lemma Buffer_from_inj: "Buffer_from s = Buffer_from t \<Longrightarrow> s = t"
proof (induction s arbitrary: t)
  case Nil
  then show ?case using utf8_char_not_empty by (cases t) (auto simp: Buffer_from_def)
next
  case (Cons c s)
  show ?case
  proof (cases t)
    case Nil
    with Cons.prems show ?thesis using utf8_char_not_empty by (auto simp: Buffer_from_def)
  next
    case (Cons d t')
    with Cons.prems have "utf8_char c @ Buffer_from s = utf8_char d @ Buffer_from t'"
      by (simp add: Buffer_from_def)
    then have "c = d" "Buffer_from s = Buffer_from t'" using utf8_char_inj by blast+
    with Cons.IH Cons show ?thesis by simp
  qed
qed

text \<open>
  What does hold of the verifier: with a non-empty secret and a raw body, the result is
  \<open>true\<close> exactly for the header \<open>sha256=\<close> followed by the digest. No value is returned
  for a header of another byte length, see below.
\<close>

lemma verifyGitHubSignature_true_iff:
  assumes "secret \<noteq> []"
  shows "verifyGitHubSignature hmac_hex (Some secret)
           \<lparr>x_hub_signature_256 = hdr, rawBody = Some body\<rparr> = Inr True
         \<longleftrightarrow> hdr = Some (''sha256='' @ hmac_hex secret body)"
  using assms Buffer_from_inj
  by (cases hdr) (auto simp: verifyGitHubSignature_def falsy_def timingSafeEqual_def Let_def)

text \<open>
  The outcome for a non-empty header, a non-empty secret and a raw body: an error exactly
  when the byte lengths differ, and otherwise the comparison of the two strings.
\<close>

lemma verifyGitHubSignature_outcome:
  assumes "hdr \<noteq> []" and "secret \<noteq> []"
  shows "verifyGitHubSignature hmac_hex (Some secret)
           \<lparr>x_hub_signature_256 = Some hdr, rawBody = Some body\<rparr>
         = (if length (Buffer_from hdr) \<noteq> length (Buffer_from (''sha256='' @ hmac_hex secret body))
            then Inl (RangeError ''Input buffers must have the same byte length'')
            else Inr (hdr = ''sha256='' @ hmac_hex secret body))"
  using assms Buffer_from_inj
  by (auto simp: verifyGitHubSignature_def falsy_def timingSafeEqual_def Let_def)

text \<open>
  C3. The claim: verification returns true iff the header is \<open>sha256=\<close> followed by the
  hex digest, and any single-byte mutation of the header makes it return false. The code
  does not return false for every mutated header: replacing the first byte of the valid
  header by the byte 0xE9 gives a header whose UTF-8 encoding is one byte longer than the
  computed signature, and \<open>crypto.timingSafeEqual\<close> throws a \<open>RangeError\<close>. This holds for
  every digest function, secret and body.
\<close>

theorem verifyGitHubSignature_mutated_header_raises:
  "verifyGitHubSignature hmac_hex (Some ''s3cret'')
     \<lparr>x_hub_signature_256 = Some (CHR 0xE9 # tl (''sha256='' @ hmac_hex ''s3cret'' body)),
      rawBody = Some body\<rparr>
   = Inl (RangeError ''Input buffers must have the same byte length'')"
  by (simp add: verifyGitHubSignature_def falsy_def timingSafeEqual_def Buffer_from_def
      utf8_char_def)

text \<open>
  C4. The claim: verification never raises, whatever the signature header. The code
  raises on a header whose byte length differs from that of the computed signature: the
  one-byte header \<open>x\<close> with a configured secret and a body makes
  \<open>crypto.timingSafeEqual\<close> throw a \<open>RangeError\<close>, for every digest function.
\<close>

theorem verifyGitHubSignature_raises_on_length_mismatch:
  "verifyGitHubSignature hmac_hex (Some ''s3cret'')
     \<lparr>x_hub_signature_256 = Some ''x'', rawBody = Some ''{}''\<rparr>
   = Inl (RangeError ''Input buffers must have the same byte length'')"
  by (simp add: verifyGitHubSignature_def falsy_def timingSafeEqual_def Buffer_from_def
      utf8_char_def)

section \<open>Properties of the file system and of the history ledger\<close>

lemma exists_file: "map_of fs p = Some f \<Longrightarrow> \<not> fault e Access p \<Longrightarrow> exists e fs p"
  by (auto simp: exists_def access_def list_ex_iff dest!: map_of_SomeD) force

lemma exists_absent_file:
  "exists e fs p \<Longrightarrow> map_of fs p = None \<Longrightarrow> list_ex (\<lambda>q. is_under p q) (map fst fs)"
  apply (auto simp: exists_def access_def list_ex_iff split: if_splits)
  by (metis fst_conv image_eqI map_of_eq_None_iff)

lemma loadHistory_ok:
  assumes "history_io_ok e" "stored_ledger fs = Some h"
  shows "loadHistory e fs = JArr h"
proof (cases "map_of fs HISTORY_FILE")
  case None
  then show ?thesis using assms
    apply (auto simp: loadHistory_def stored_ledger_def readFile_def history_io_ok_def)
    done
next
  case (Some f)
  then have "exists e fs HISTORY_FILE" using assms exists_file by (simp add: history_io_ok_def)
  then show ?thesis using assms Some
    by (auto simp: loadHistory_def stored_ledger_def readFile_def history_io_ok_def JSON_parse_def
        split: content.splits jval.splits)
qed

lemma saveHistory_ok:
  assumes "history_io_ok e"
  shows "stored_ledger (saveHistory e fs h) = Some (take MAX_HISTORY_ENTRIES h)"
  using assms
  by (simp add: saveHistory_def history_io_ok_def mkdir_def writeFile_def stored_ledger_def
      update_conv')

lemma addSyncEntry_ok:
  assumes "history_io_ok e" "stored_ledger fs = Some h"
  shows "addSyncEntry e fs entry =
           (Inr (map_of (newEntry e entry) ''id''), saveHistory e fs (JObj (newEntry e entry) # h))"
  using loadHistory_ok [OF assms] by (simp add: addSyncEntry_def)

lemma take_append_take: "take n (xs @ take n ys) = take n (xs @ ys)"
  by (induction xs arbitrary: n) (auto simp: take_Cons split: nat.splits)

lemma addSyncEntry_seq_stored:
  assumes "list_all (\<lambda>(e, entry). history_io_ok e) calls" "stored_ledger fs = Some h0" "calls \<noteq> []"
  shows "stored_ledger (addSyncEntry_seq calls fs) =
          Some (take MAX_HISTORY_ENTRIES (rev (map (\<lambda>(e, entry). JObj (newEntry e entry)) calls) @ h0))"
  using assms
proof (induction calls arbitrary: fs h0)
  case Nil
  then show ?case by simp
next
  case (Cons c calls)
  obtain e entry where c: "c = (e, entry)" by (cases c)
  from Cons.prems c have ok: "history_io_ok e" by simp
  let ?fs1 = "snd (addSyncEntry e fs entry)"
  have s1: "stored_ledger ?fs1 = Some (take MAX_HISTORY_ENTRIES (JObj (newEntry e entry) # h0))"
    using addSyncEntry_ok [OF ok Cons.prems(2)] saveHistory_ok [OF ok] by simp
  show ?case
  proof (cases "calls = []")
    case True
    then show ?thesis using s1 c by simp
  next
    case False
    from Cons.prems have "list_all (\<lambda>(e, entry). history_io_ok e) calls" by simp
    from Cons.IH [OF this s1 False] show ?thesis
      using c by (simp add: take_append_take)
  qed
qed

lemma map_of_spread: "map_of (spread base ext) = map_of base ++ map_of (rev ext)"
  unfolding spread_def
proof (induction ext arbitrary: base)
  case Nil
  then show ?case by simp
next
  case (Cons x ext)
  obtain k v where x: "x = (k, v)" by (cases x)
  have "map_of (AList.update k v base) ++ map_of (rev ext)
        = map_of base ++ (map_of [(k, v)] ++ map_of (rev ext))"
    by (simp add: update_conv')
  with Cons [of "AList.update k v base"] x show ?case by simp
qed

lemma newEntry_field:
  "map_of (newEntry e entry) k =
     (case map_of (rev entry) k of
        Some v \<Rightarrow> Some v
      | None \<Rightarrow> map_of [(''id'', JStr (generateId e)), (''timestamp'', JStr (now_iso e)),
                         (''status'', JStr ''in_progress'')] k)"
  unfolding newEntry_def map_of_spread by (simp add: map_add_def split: option.splits)

lemma digit_char_code: "d < 10 \<Longrightarrow> of_char (digit_char d) = 48 + d"
proof -
  assume "d < 10"
  then consider "d = 0" | "d = 1" | "d = 2" | "d = 3" | "d = 4" | "d = 5" | "d = 6"
    | "d = 7" | "d = 8" | "d = 9" by force
  then show ?thesis by cases (simp_all add: digit_char_def)
qed

lemma digit_char_not_underscore: "d < 10 \<Longrightarrow> digit_char d \<noteq> CHR ''_''"
proof
  assume d: "d < 10" and "digit_char d = CHR ''_''"
  then have "(of_char (digit_char d) :: nat) = of_char CHR ''_''" by simp
  with d digit_char_code [OF d] show False by simp
qed

lemma read_show: "read_nat (show_nat n) = n"
proof (induction n rule: show_nat.induct)
  case (1 n)
  show ?case
  proof (cases "n < 10")
    case True
    then show ?thesis using digit_char_code [OF True]
      by (subst show_nat.simps) (simp add: read_nat_def)
  next
    case False
    have "n mod 10 < 10" by simp
    note d = digit_char_code [OF this]
    from False 1 have "read_nat (show_nat (n div 10)) = n div 10" by simp
    then show ?thesis using False d
      by (subst show_nat.simps) (simp add: read_nat_def)
  qed
qed

lemma show_nat_no_us: "CHR ''_'' \<notin> set (show_nat n)"
proof (induction n rule: show_nat.induct)
  case (1 n)
  show ?case
  proof (cases "n < 10")
    case True
    then show ?thesis using digit_char_not_underscore [OF True]
      by (subst show_nat.simps) (simp add: eq_commute)
  next
    case False
    have "n mod 10 < 10" by simp
    from digit_char_not_underscore [OF this] False 1 show ?thesis
      by (subst show_nat.simps) (simp add: eq_commute)
  qed
qed

lemma split_at_us:
  assumes "CHR ''_'' \<notin> set a" "CHR ''_'' \<notin> set b" "a @ CHR ''_'' # r = b @ CHR ''_'' # s"
  shows "a = b \<and> r = s"
  using assms
proof (induction a arbitrary: b)
  case Nil
  then show ?case by (cases b) auto
next
  case (Cons x a)
  then show ?case by (cases b) auto
qed

lemma generateId_inj:
  "generateId e1 = generateId e2 \<longleftrightarrow> now e1 = now e2 \<and> random36 e1 = random36 e2"
proof
  assume "generateId e1 = generateId e2"
  then have "show_nat (now e1) @ CHR ''_'' # random36 e1 = show_nat (now e2) @ CHR ''_'' # random36 e2"
    by (simp add: generateId_def)
  from split_at_us [OF show_nat_no_us show_nat_no_us this]
  have "show_nat (now e1) = show_nat (now e2)" "random36 e1 = random36 e2" by simp_all
  then show "now e1 = now e2 \<and> random36 e1 = random36 e2"
    using read_show by metis
qed (simp add: generateId_def)

text \<open>
  C8. The claim: every call of \<open>addSyncEntry\<close> sets the status of the new entry to
  \<open>in_progress\<close> (and gives it a fresh id and timestamp). The generated properties
  are written before the spread of the caller's entry, so the caller's properties win:
  an entry passed with \<open>status: 'failed'\<close> is stored with that status.
\<close>

theorem addSyncEntry_status_counterexample:
  "stored_ledger (snd (addSyncEntry (quiet_env 42 ''k3j9x0'') [] [(''status'', JStr ''failed'')]))
   = Some [JObj [(''id'', JStr ''sync_42_k3j9x0''),
                 (''timestamp'', JStr ''2025-01-01T00:00:00.000Z''),
                 (''status'', JStr ''failed'')]]"
  by (simp add: addSyncEntry_def loadHistory_def exists_def access_def saveHistory_def mkdir_def
      writeFile_def newEntry_def spread_def generateId_def show_nat.simps digit_char_def
      quiet_env_def stored_ledger_def MAX_HISTORY_ENTRIES_def HISTORY_FILE_def dirname_def)

text \<open>
  C8, as the code has it. For every sequence of one or more calls whose system calls on
  the history file succeed, starting from a history file that is absent (\<open>h0\<close> empty) or
  holds the JSON array \<open>h0\<close>: the stored ledger afterwards is the first
  \<open>MAX_HISTORY_ENTRIES\<close> entries of the new entries, newest first, followed by \<open>h0\<close>, so
  it has exactly \<open>MAX_HISTORY_ENTRIES\<close> entries once that many exist. Each new entry
  takes a property from the caller's entry when the caller gives it (the last one of that
  name, should the list name it twice), and otherwise the generated id, the timestamp and
  the status \<open>in_progress\<close>. Two generated ids are equal only when both the clock and
  the random suffix coincide.
\<close>

theorem addSyncEntry_seq_ledger:
  assumes "list_all (\<lambda>(e, entry). history_io_ok e) calls"
      and "stored_ledger fs = Some h0"
      and "calls \<noteq> []"
  shows "stored_ledger (addSyncEntry_seq calls fs) =
           Some (take MAX_HISTORY_ENTRIES
                   (rev (map (\<lambda>(e, entry). JObj (newEntry e entry)) calls) @ h0))
       \<and> (MAX_HISTORY_ENTRIES \<le> length calls + length h0 \<longrightarrow>
            map_option length (stored_ledger (addSyncEntry_seq calls fs)) = Some MAX_HISTORY_ENTRIES)
       \<and> map_of (newEntry e entry) k =
           (case map_of (rev entry) k of
              Some v \<Rightarrow> Some v
            | None \<Rightarrow> map_of [(''id'', JStr (generateId e)), (''timestamp'', JStr (now_iso e)),
                               (''status'', JStr ''in_progress'')] k)
       \<and> (generateId e1 = generateId e2 \<longleftrightarrow> now e1 = now e2 \<and> random36 e1 = random36 e2)"
  using addSyncEntry_seq_stored [OF assms] newEntry_field generateId_inj by (auto simp: min_def)

theorem addSyncEntry_seq_ledger_witness:
  "stored_ledger (addSyncEntry_seq
      [(quiet_env 7 ''a'', [(''type'', JStr ''manual'')]), (quiet_env 8 ''b'', [])] [])
   = Some [JObj [(''id'', JStr ''sync_8_b''), (''timestamp'', JStr ''2025-01-01T00:00:00.000Z''),
                 (''status'', JStr ''in_progress'')],
           JObj [(''id'', JStr ''sync_7_a''), (''timestamp'', JStr ''2025-01-01T00:00:00.000Z''),
                 (''status'', JStr ''in_progress''), (''type'', JStr ''manual'')]]
   \<and> map_option length
        (stored_ledger (addSyncEntry_seq (replicate 105 (quiet_env 7 ''a'', [])) [])) = Some 100"
proof -
  have ok: "history_io_ok (quiet_env t r)" for t r
    by (simp add: history_io_ok_def quiet_env_def)
  have init: "stored_ledger [] = Some []"
    by (simp add: stored_ledger_def)
  have a: "list_all (\<lambda>(e, entry). history_io_ok e)
             [(quiet_env 7 ''a'', [(''type'', JStr ''manual'')]), (quiet_env 8 ''b'', [])]"
    using ok by simp
  have b: "list_all (\<lambda>(e, entry). history_io_ok e) (replicate 105 (quiet_env 7 ''a'', []))"
    using ok by (simp add: list_all_iff)
  have c: "replicate 105 (quiet_env 7 ''a'', ([] :: (string \<times> jval) list)) \<noteq> []" by simp
  have s1: "show_nat 7 = ''7''" and s2: "show_nat 8 = ''8''"
    by (subst show_nat.simps, simp add: digit_char_def)+
  have l1: "stored_ledger (addSyncEntry_seq
      [(quiet_env 7 ''a'', [(''type'', JStr ''manual'')]), (quiet_env 8 ''b'', [])] [])
   = Some [JObj [(''id'', JStr ''sync_8_b''), (''timestamp'', JStr ''2025-01-01T00:00:00.000Z''),
                 (''status'', JStr ''in_progress'')],
           JObj [(''id'', JStr ''sync_7_a''), (''timestamp'', JStr ''2025-01-01T00:00:00.000Z''),
                 (''status'', JStr ''in_progress''), (''type'', JStr ''manual'')]]"
    using addSyncEntry_seq_ledger [OF a init, THEN conjunct1]
    by (simp add: newEntry_def spread_def generateId_def s1 s2 quiet_env_def
        MAX_HISTORY_ENTRIES_def)
  have l2: "map_option length
        (stored_ledger (addSyncEntry_seq (replicate 105 (quiet_env 7 ''a'', [])) [])) = Some 100"
    using addSyncEntry_seq_ledger [OF b init c, THEN conjunct2, THEN conjunct1]
    by (simp add: MAX_HISTORY_ENTRIES_def)
  from l1 l2 show ?thesis by simp
qed

section \<open>Properties of the backup store\<close>

lemma is_under_join: "is_under d p \<Longrightarrow> path_join d (drop (Suc (length d)) p) = p"
  by (auto simp: is_under_def path_join_def prefix_def)

lemma map_join_filter_drop:
  "map (path_join d) (filter E (map (\<lambda>p. drop (length d + 1) p) (filter (\<lambda>p. is_under d p \<and> R p) ks)))
   = filter (\<lambda>p. is_under d p \<and> R p \<and> E (drop (length d + 1) p)) ks"
  by (induction ks) (auto simp: is_under_join)

lemma backup_paths:
  "readdir e fs BACKUP_DIR = Inr files \<Longrightarrow>
   map (path_join BACKUP_DIR) (filter (\<lambda>f. endsWith f ''.tar.gz'') files)
   = filter is_backup_path (map fst fs)"
  using map_join_filter_drop [of BACKUP_DIR "\<lambda>f. endsWith f ''.tar.gz''"
      "\<lambda>p. CHR ''/'' \<notin> set (drop (length BACKUP_DIR + 1) p)" "map fst fs"]
  unfolding readdir_def is_backup_path_def
  by (auto split: if_splits)

lemma backupStats_paths:
  "backupStats e fs pl ps = Inr sts \<Longrightarrow> map path sts = ps"
  by (induction ps arbitrary: sts) (auto split: sum.splits)

lemma backupStats_protected:
  "backupStats e fs pl ps = Inr sts \<Longrightarrow> b \<in> set sts \<Longrightarrow>
   js_includes pl (basename (path b)) = Inr (protected b)"
  by (induction ps arbitrary: sts) (auto split: sum.splits)

lemma backupStats_filter:
  assumes "\<And>p. p \<in> set ps \<Longrightarrow> Q p \<Longrightarrow> map_of fs' p = map_of fs p"
      and "backupStats e fs pl ps = Inr sts"
  shows "backupStats e fs' pl (filter Q ps) = Inr (filter (\<lambda>b. Q (path b)) sts)"
  using assms
proof (induction ps arbitrary: sts)
  case Nil
  then show ?case by simp
next
  case (Cons p ps)
  from Cons.prems(2) obtain st pr rest where
    st: "stat e fs p = Inr st" and pr: "js_includes pl (basename p) = Inr pr"
    and rest: "backupStats e fs pl ps = Inr rest"
    and sts: "sts = \<lparr>path = p, name = basename p, created = mtime st, protected = pr\<rparr> # rest"
    by (auto split: sum.splits)
  have IH: "backupStats e fs' pl (filter Q ps) = Inr (filter (\<lambda>b. Q (path b)) rest)"
    using Cons.IH [OF _ rest] Cons.prems(1) by simp
  show ?case
  proof (cases "Q p")
    case True
    with Cons.prems(1) have "map_of fs' p = map_of fs p" by simp
    with st have "stat e fs' p = Inr st" by (simp add: stat_def split: if_splits)
    with True pr IH sts show ?thesis by simp
  next
    case False
    with IH sts show ?thesis by simp
  qed
qed

lemma map_of_remove_paths:
  "map_of (remove_paths D fs) p = (if p \<in> D then None else map_of fs p)"
  unfolding remove_paths_def by (induction fs) auto

lemma keys_remove_paths: "map fst (remove_paths D fs) = filter (\<lambda>q. q \<notin> D) (map fst fs)"
  unfolding remove_paths_def by (induction fs) auto

lemma backup_path_not_protected_file:
  assumes "is_backup_path p"
  shows "p \<noteq> PROTECTED_BACKUPS_FILE" "\<not> is_under PROTECTED_BACKUPS_FILE p"
proof -
  show "p \<noteq> PROTECTED_BACKUPS_FILE"
  proof
    assume "p = PROTECTED_BACKUPS_FILE"
    with assms show False
      by (simp add: is_backup_path_def PROTECTED_BACKUPS_FILE_def BACKUP_DIR_def path_join_def
          endsWith_def suffix_def)
  qed
  show "\<not> is_under PROTECTED_BACKUPS_FILE p"
  proof
    assume "is_under PROTECTED_BACKUPS_FILE p"
    then obtain r where "p = PROTECTED_BACKUPS_FILE @ ''/'' @ r"
      by (auto simp: is_under_def prefix_def)
    with assms show False
      by (simp add: is_backup_path_def PROTECTED_BACKUPS_FILE_def BACKUP_DIR_def path_join_def)
  qed
qed

lemma exists_remove_paths:
  assumes "\<And>p. p \<in> D \<Longrightarrow> p \<noteq> d \<and> \<not> is_under d p"
  shows "exists e (remove_paths D fs) d = exists e fs d"
  using assms
  by (auto simp: exists_def access_def list_ex_iff keys_remove_paths)

lemma loadProtectedBackups_remove_paths:
  assumes "\<And>p. p \<in> D \<Longrightarrow> is_backup_path p"
  shows "loadProtectedBackups e (remove_paths D fs) = loadProtectedBackups e fs"
proof -
  have 1: "exists e (remove_paths D fs) PROTECTED_BACKUPS_FILE = exists e fs PROTECTED_BACKUPS_FILE"
    using assms backup_path_not_protected_file by (intro exists_remove_paths) blast
  have "PROTECTED_BACKUPS_FILE \<notin> D"
    using assms backup_path_not_protected_file by blast
  then have 2: "readFile e (remove_paths D fs) PROTECTED_BACKUPS_FILE = readFile e fs PROTECTED_BACKUPS_FILE"
    by (simp add: readFile_def map_of_remove_paths)
  show ?thesis unfolding loadProtectedBackups_def 1 2 ..
qed

lemma listBackups_cases:
  "listBackups e fs = [] \<or>
   (\<exists>files sts. exists e fs BACKUP_DIR \<and> readdir e fs BACKUP_DIR = Inr files \<and>
      backupStats e fs (loadProtectedBackups e fs) (filter is_backup_path (map fst fs)) = Inr sts \<and>
      listBackups e fs = sort_key (\<lambda>b. - int (created b)) sts)"
proof (cases "exists e fs BACKUP_DIR")
  case False
  then show ?thesis by (simp add: listBackups_def)
next
  case True
  show ?thesis
  proof (cases "readdir e fs BACKUP_DIR")
    case (Inl a)
    with True show ?thesis by (simp add: listBackups_def)
  next
    case (Inr files)
    note bp = backup_paths [OF Inr]
    show ?thesis
    proof (cases "backupStats e fs (loadProtectedBackups e fs) (filter is_backup_path (map fst fs))")
      case (Inl a)
      with True Inr bp show ?thesis by (simp add: listBackups_def)
    next
      case (Inr sts)
      with True \<open>readdir e fs BACKUP_DIR = Inr files\<close> bp show ?thesis
        by (simp add: listBackups_def)
    qed
  qed
qed

lemma listBackups_paths: "set (map path (listBackups e fs)) \<subseteq> {p. is_backup_path p} \<inter> set (map fst fs)"
  using listBackups_cases [of e fs]
proof
  assume "listBackups e fs = []" then show ?thesis by simp
next
  assume "\<exists>files sts. exists e fs BACKUP_DIR \<and> readdir e fs BACKUP_DIR = Inr files \<and>
      backupStats e fs (loadProtectedBackups e fs) (filter is_backup_path (map fst fs)) = Inr sts \<and>
      listBackups e fs = sort_key (\<lambda>b. - int (created b)) sts"
  then obtain sts where
    s: "backupStats e fs (loadProtectedBackups e fs) (filter is_backup_path (map fst fs)) = Inr sts"
    and l: "listBackups e fs = sort_key (\<lambda>b. - int (created b)) sts" by blast
  from backupStats_paths [OF s] have "path ` set sts = set (filter is_backup_path (map fst fs))"
    by (metis set_map)
  with l show ?thesis by auto
qed

lemma listBackups_distinct:
  assumes "distinct (map fst fs)"
  shows "distinct (map path (listBackups e fs))"
  using listBackups_cases [of e fs]
proof
  assume "listBackups e fs = []" then show ?thesis by simp
next
  assume "\<exists>files sts. exists e fs BACKUP_DIR \<and> readdir e fs BACKUP_DIR = Inr files \<and>
      backupStats e fs (loadProtectedBackups e fs) (filter is_backup_path (map fst fs)) = Inr sts \<and>
      listBackups e fs = sort_key (\<lambda>b. - int (created b)) sts"
  then obtain sts where
    s: "backupStats e fs (loadProtectedBackups e fs) (filter is_backup_path (map fst fs)) = Inr sts"
    and l: "listBackups e fs = sort_key (\<lambda>b. - int (created b)) sts" by blast
  from backupStats_paths [OF s] assms have "distinct (map path sts)" by simp
  then have "distinct (map path (sort_key (\<lambda>b. - int (created b)) sts))"
    by (metis distinct_map distinct_sort set_sort)
  with l show ?thesis by simp
qed

lemma listBackups_protected:
  assumes "b \<in> set (listBackups e fs)"
  shows "isBackupProtected e fs (path b) = Inr (protected b)"
  using listBackups_cases [of e fs]
proof
  assume "listBackups e fs = []" with assms show ?thesis by simp
next
  assume "\<exists>files sts. exists e fs BACKUP_DIR \<and> readdir e fs BACKUP_DIR = Inr files \<and>
      backupStats e fs (loadProtectedBackups e fs) (filter is_backup_path (map fst fs)) = Inr sts \<and>
      listBackups e fs = sort_key (\<lambda>b. - int (created b)) sts"
  then obtain sts where
    s: "backupStats e fs (loadProtectedBackups e fs) (filter is_backup_path (map fst fs)) = Inr sts"
    and l: "listBackups e fs = sort_key (\<lambda>b. - int (created b)) sts" by blast
  from l assms have "b \<in> set sts" by simp
  from backupStats_protected [OF s this] show ?thesis by (simp add: isBackupProtected_def)
qed

lemma exists_iff:
  "exists e fs d \<longleftrightarrow> \<not> fault e Access d \<and> (\<exists>q \<in> set (map fst fs). q = d \<or> is_under d q)"
  by (auto simp: exists_def access_def list_ex_iff)

lemma is_backup_path_under: "is_backup_path p \<Longrightarrow> is_under BACKUP_DIR p"
  by (simp add: is_backup_path_def)

lemma listBackups_remove_paths:
  assumes D: "D \<subseteq> set (map path (listBackups e fs))"
  shows "listBackups e (remove_paths D fs) = filter (\<lambda>b. path b \<notin> D) (listBackups e fs)"
  using listBackups_cases [of e fs]
proof
  assume "listBackups e fs = []"
  with D have "D = {}" by simp
  then have "remove_paths D fs = fs" by (simp add: remove_paths_def)
  with \<open>listBackups e fs = []\<close> show ?thesis by simp
next
  assume "\<exists>files sts. exists e fs BACKUP_DIR \<and> readdir e fs BACKUP_DIR = Inr files \<and>
      backupStats e fs (loadProtectedBackups e fs) (filter is_backup_path (map fst fs)) = Inr sts \<and>
      listBackups e fs = sort_key (\<lambda>b. - int (created b)) sts"
  then obtain files sts where
    ex: "exists e fs BACKUP_DIR" and rd: "readdir e fs BACKUP_DIR = Inr files" and
    s: "backupStats e fs (loadProtectedBackups e fs) (filter is_backup_path (map fst fs)) = Inr sts"
    and l: "listBackups e fs = sort_key (\<lambda>b. - int (created b)) sts" by blast
  let ?fs' = "remove_paths D fs"
  have Db: "\<And>p. p \<in> D \<Longrightarrow> is_backup_path p"
    using D listBackups_paths [of e fs] by auto
  have pl: "loadProtectedBackups e ?fs' = loadProtectedBackups e fs"
    using Db by (rule loadProtectedBackups_remove_paths)
  have nf: "\<not> fault e Readdir BACKUP_DIR"
    using rd by (auto simp: readdir_def split: if_splits)
  then obtain files' where rd': "readdir e ?fs' BACKUP_DIR = Inr files'"
    by (simp add: readdir_def)
  have bp': "filter is_backup_path (map fst ?fs') = filter (\<lambda>p. p \<notin> D) (filter is_backup_path (map fst fs))"
    by (simp add: keys_remove_paths conj_commute)
  have st': "backupStats e ?fs' (loadProtectedBackups e fs) (filter (\<lambda>p. p \<notin> D) (filter is_backup_path (map fst fs)))
        = Inr (filter (\<lambda>b. path b \<notin> D) sts)"
    by (rule backupStats_filter [OF _ s]) (simp add: map_of_remove_paths)
  have target: "filter (\<lambda>b. path b \<notin> D) (listBackups e fs)
        = sort_key (\<lambda>b. - int (created b)) (filter (\<lambda>b. path b \<notin> D) sts)"
    by (simp add: l filter_sort)
  show ?thesis
  proof (cases "exists e ?fs' BACKUP_DIR")
    case True
    with rd' backup_paths [OF rd'] bp' st' pl target show ?thesis
      by (simp add: listBackups_def)
  next
    case False
    from ex have na: "\<not> fault e Access BACKUP_DIR" by (simp add: exists_iff)
    have "filter is_backup_path (map fst ?fs') = []"
    proof (rule ccontr)
      assume "filter is_backup_path (map fst ?fs') \<noteq> []"
      then obtain q where "q \<in> set (map fst ?fs')" "is_backup_path q"
        by (metis filter_False)
      then have "exists e ?fs' BACKUP_DIR"
        using na is_backup_path_under unfolding exists_iff by blast
      with False show False by simp
    qed
    with bp' have "filter (\<lambda>p. p \<notin> D) (filter is_backup_path (map fst fs)) = []" by simp
    with st' have "filter (\<lambda>b. path b \<notin> D) sts = []" by simp
    with target False show ?thesis by (simp add: listBackups_def)
  qed
qed

lemma unlink_each_ok:
  assumes "distinct (map path bs)"
      and "\<And>b. b \<in> set bs \<Longrightarrow> \<not> fault e Unlink (path b) \<and> map_of fs (path b) \<noteq> None"
  shows "unlink_each e fs bs = (Inr (), remove_paths (set (map path bs)) fs)"
  using assms
proof (induction bs arbitrary: fs)
  case Nil
  then show ?case by (simp add: remove_paths_def)
next
  case (Cons b bs)
  have u: "unlink e fs (path b) = Inr (AList.delete (path b) fs)"
    using Cons.prems(2) [of b] by (auto simp: unlink_def)
  have d: "AList.delete (path b) fs = remove_paths {path b} fs"
    by (simp add: AList.delete_eq remove_paths_def eq_commute)
  have "unlink_each e (remove_paths {path b} fs) bs
        = (Inr (), remove_paths (set (map path bs)) (remove_paths {path b} fs))"
  proof (rule Cons.IH)
    show "distinct (map path bs)" using Cons.prems(1) by simp
    fix c assume c: "c \<in> set bs"
    from Cons.prems(1) have "path b \<notin> path ` set bs" by simp
    with c have "path c \<noteq> path b" by (metis imageI)
    with Cons.prems(2) [of c] c
    show "\<not> fault e Unlink (path c) \<and> map_of (remove_paths {path b} fs) (path c) \<noteq> None"
      by (simp add: map_of_remove_paths)
  qed
  moreover have "remove_paths (set (map path bs)) (remove_paths {path b} fs)
        = remove_paths (set (map path (b # bs))) fs"
    by (auto simp: remove_paths_def intro: filter_cong)
  ultimately show ?case using u d by simp
qed

lemma filter_append_keep_first:
  assumes "\<And>a. a \<in> set as \<Longrightarrow> P a" "\<And>b. b \<in> set bs \<Longrightarrow> \<not> P b"
  shows "filter P (as @ bs) = as"
  using assms by (simp add: filter_empty_conv)

lemma filter_not_in_drop:
  assumes "distinct (map f xs)"
  shows "filter (\<lambda>x. f x \<notin> set (map f (drop n xs))) xs = take n xs"
proof -
  have "distinct (map f (take n xs @ drop n xs))" using assms by simp
  then have d: "distinct (map f (take n xs) @ map f (drop n xs))" by (simp only: map_append)
  have "filter (\<lambda>x. f x \<notin> set (map f (drop n xs))) (take n xs @ drop n xs) = take n xs"
  proof (rule filter_append_keep_first)
    fix a assume "a \<in> set (take n xs)"
    with d show "f a \<notin> set (map f (drop n xs))" by auto
  next
    fix b assume "b \<in> set (drop n xs)"
    then show "\<not> f b \<notin> set (map f (drop n xs))" by simp
  qed
  then show ?thesis by simp
qed

lemma remove_paths_compose:
  "remove_paths A (remove_paths B fs) = remove_paths (A \<union> B) fs"
  by (auto simp: remove_paths_def intro: filter_cong)

lemma delete_remove_paths: "AList.delete p fs = remove_paths {p} fs"
  by (simp add: AList.delete_eq remove_paths_def eq_commute)

text \<open>Whatever fails, the loop deletes an initial part of its list and nothing else.\<close>

lemma unlink_each_prefix:
  "\<exists>k. snd (unlink_each e fs bs) = remove_paths (set (map path (take k bs))) fs"
proof (induction bs arbitrary: fs)
  case Nil
  then show ?case by (simp add: remove_paths_def)
next
  case (Cons b bs)
  show ?case
  proof (cases "unlink e fs (path b)")
    case (Inl err)
    then have "snd (unlink_each e fs (b # bs)) = remove_paths (set (map path (take 0 (b # bs)))) fs"
      by (simp add: remove_paths_def)
    then show ?thesis by blast
  next
    case (Inr fs')
    then have fs': "fs' = remove_paths {path b} fs"
      by (auto simp: unlink_def delete_remove_paths split: if_splits)
    from Cons.IH [of fs'] obtain k where
      "snd (unlink_each e fs' bs) = remove_paths (set (map path (take k bs))) fs'" by blast
    with Inr fs' have "snd (unlink_each e fs (b # bs))
         = remove_paths (set (map path (take (Suc k) (b # bs)))) fs"
      by (simp add: remove_paths_compose)
    then show ?thesis by blast
  qed
qed

lemma unlink_each_stops:
  assumes "distinct (map path (pre @ b # post))"
      and "\<And>c. c \<in> set pre \<Longrightarrow> \<not> fault e Unlink (path c) \<and> map_of fs (path c) \<noteq> None"
      and "fault e Unlink (path b)"
  shows "\<exists>err. unlink_each e fs (pre @ b # post) = (Inl err, remove_paths (set (map path pre)) fs)"
  using assms
proof (induction pre arbitrary: fs)
  case Nil
  then show ?case by (simp add: unlink_def remove_paths_def)
next
  case (Cons c pre)
  have u: "unlink e fs (path c) = Inr (remove_paths {path c} fs)"
    using Cons.prems(2) [of c] by (auto simp: unlink_def delete_remove_paths)
  have "\<exists>err. unlink_each e (remove_paths {path c} fs) (pre @ b # post)
          = (Inl err, remove_paths (set (map path pre)) (remove_paths {path c} fs))"
  proof (rule Cons.IH)
    show "distinct (map path (pre @ b # post))" using Cons.prems(1) by simp
    show "fault e Unlink (path b)" by fact
    fix x assume x: "x \<in> set pre"
    from Cons.prems(1) have "path c \<notin> path ` set pre" by auto
    with x have "path x \<noteq> path c" by (metis imageI)
    with Cons.prems(2) [of x] x
    show "\<not> fault e Unlink (path x) \<and> map_of (remove_paths {path c} fs) (path x) \<noteq> None"
      by (simp add: map_of_remove_paths)
  qed
  then show ?case using u by (simp add: remove_paths_compose Un_commute)
qed

lemma cleanOldBackups_never_throws: "fst (cleanOldBackups e fs) = Inr ()"
  by (simp add: cleanOldBackups_def Let_def split: prod.splits sum.splits)

lemma cleanOldBackups_result:
  "snd (cleanOldBackups e fs) =
     (if length_le (length (filter (\<lambda>b. \<not> protected b) (listBackups e fs))) (BACKUP_RETENTION e)
      then fs else snd (unlink_each e fs (toRemove e fs)))"
  by (simp add: cleanOldBackups_def Let_def split: prod.splits sum.splits)

lemma toRemove_subset: "set (toRemove e fs) \<subseteq> {b \<in> set (listBackups e fs). \<not> protected b}"
  by (auto simp: toRemove_def slice_from_def split: jsnum.splits dest: in_set_dropD)

lemma cleanOldBackups_removes:
  "\<exists>D. D \<subseteq> path ` set (toRemove e fs) \<and> snd (cleanOldBackups e fs) = remove_paths D fs"
proof (cases "length_le (length (filter (\<lambda>b. \<not> protected b) (listBackups e fs))) (BACKUP_RETENTION e)")
  case True
  then have "snd (cleanOldBackups e fs) = remove_paths {} fs"
    by (simp add: cleanOldBackups_result remove_paths_def)
  then show ?thesis by blast
next
  case False
  from unlink_each_prefix [of e fs "toRemove e fs"] obtain k where
    "snd (unlink_each e fs (toRemove e fs)) = remove_paths (set (map path (take k (toRemove e fs)))) fs"
    by blast
  with False have "snd (cleanOldBackups e fs) = remove_paths (set (map path (take k (toRemove e fs)))) fs"
    by (simp add: cleanOldBackups_result)
  moreover have "set (map path (take k (toRemove e fs))) \<subseteq> path ` set (toRemove e fs)"
    by (auto dest: in_set_takeD)
  ultimately show ?thesis by blast
qed

text \<open>A protected backup is never deleted, whatever fails.\<close>

lemma cleanOldBackups_keeps_protected:
  assumes "isBackupProtected e fs p = Inr True"
  shows "map_of (snd (cleanOldBackups e fs)) p = map_of fs p"
proof -
  from cleanOldBackups_removes [of e fs] obtain D where
    D: "D \<subseteq> path ` set (toRemove e fs)" and r: "snd (cleanOldBackups e fs) = remove_paths D fs"
    by blast
  have "p \<notin> D"
  proof
    assume "p \<in> D"
    with D obtain b where b: "b \<in> set (toRemove e fs)" and p: "p = path b" by auto
    from b toRemove_subset have "b \<in> set (listBackups e fs)" "\<not> protected b" by auto
    from listBackups_protected [OF this(1)] this(2) assms p show False by simp
  qed
  with r show ?thesis by (simp add: map_of_remove_paths)
qed

lemma listed_backup_exists:
  assumes "b \<in> set (listBackups e fs)"
  shows "map_of fs (path b) \<noteq> None"
proof -
  from assms listBackups_paths [of e fs] have "path b \<in> set (map fst fs)" by auto
  then show ?thesis by (simp add: map_of_eq_None_iff)
qed

lemma toRemove_Num:
  "BACKUP_RETENTION e = Num (int n) \<Longrightarrow>
   toRemove e fs = drop n (filter (\<lambda>b. \<not> protected b) (listBackups e fs))"
  by (simp add: toRemove_def slice_from_def)

text \<open>
  C5. Retention. When the file system holds each path once, \<open>BACKUP_RETENTION\<close> is the
  number \<open>n\<close> and no deletion of a candidate fails: after \<open>cleanOldBackups\<close> the
  unprotected backups are the \<open>n\<close> newest unprotected backups of before, so there are at
  most \<open>n\<close> of them, and the protected backups are the same as before.
\<close>

theorem cleanOldBackups_retention:
  assumes "distinct (map fst fs)"
      and "BACKUP_RETENTION e = Num (int n)"
      and "list_all (\<lambda>b. \<not> fault e Unlink (path b)) (toRemove e fs)"
  shows "filter (\<lambda>b. \<not> protected b) (listBackups e (snd (cleanOldBackups e fs)))
           = take n (filter (\<lambda>b. \<not> protected b) (listBackups e fs))
       \<and> length (filter (\<lambda>b. \<not> protected b) (listBackups e (snd (cleanOldBackups e fs)))) \<le> n
       \<and> filter protected (listBackups e (snd (cleanOldBackups e fs)))
           = filter protected (listBackups e fs)"
proof -
  let ?U = "filter (\<lambda>b. \<not> protected b) (listBackups e fs)"
  let ?D = "set (map path (drop n ?U))"
  have dU: "distinct (map path ?U)"
    using listBackups_distinct [OF assms(1), of e] by (simp add: distinct_map_filter)
  have fs': "snd (cleanOldBackups e fs) = remove_paths ?D fs"
  proof (cases "length_le (length ?U) (BACKUP_RETENTION e)")
    case True
    then have "drop n ?U = []" using assms(2) by (simp add: length_le_def)
    with True show ?thesis by (simp add: cleanOldBackups_result remove_paths_def)
  next
    case False
    have "unlink_each e fs (drop n ?U) = (Inr (), remove_paths ?D fs)"
    proof (rule unlink_each_ok)
      show "distinct (map path (drop n ?U))" using dU by (simp add: drop_map [symmetric] distinct_drop)
      fix b assume b: "b \<in> set (drop n ?U)"
      then have "b \<in> set (listBackups e fs)" by (auto dest: in_set_dropD)
      then have "map_of fs (path b) \<noteq> None" by (rule listed_backup_exists)
      moreover from b assms(3) toRemove_Num [OF assms(2)] have "\<not> fault e Unlink (path b)"
        by (simp add: list_all_iff)
      ultimately show "\<not> fault e Unlink (path b) \<and> map_of fs (path b) \<noteq> None" by simp
    qed
    with False toRemove_Num [OF assms(2), of fs] show ?thesis
      by (simp add: cleanOldBackups_result)
  qed
  have sub: "?D \<subseteq> set (map path (listBackups e fs))"
    by (auto dest!: in_set_dropD)
  have l: "listBackups e (snd (cleanOldBackups e fs))
        = filter (\<lambda>b. path b \<notin> ?D) (listBackups e fs)"
    unfolding fs' by (rule listBackups_remove_paths [OF sub])
  have u: "filter (\<lambda>b. \<not> protected b) (listBackups e (snd (cleanOldBackups e fs))) = take n ?U"
  proof -
    have "filter (\<lambda>b. \<not> protected b) (listBackups e (snd (cleanOldBackups e fs)))
        = filter (\<lambda>b. path b \<notin> ?D) ?U"
      unfolding l by (simp add: conj_commute)
    also have "\<dots> = take n ?U" by (rule filter_not_in_drop [OF dU])
    finally show ?thesis .
  qed
  have p: "filter protected (listBackups e (snd (cleanOldBackups e fs)))
        = filter protected (listBackups e fs)"
  proof -
    have "\<And>b. b \<in> set (listBackups e fs) \<Longrightarrow> protected b \<Longrightarrow> path b \<notin> ?D"
    proof
      fix b assume b: "b \<in> set (listBackups e fs)" "protected b" "path b \<in> ?D"
      then obtain c where c: "c \<in> set (drop n ?U)" "path c = path b" by auto
      then have c': "c \<in> set (listBackups e fs)" "\<not> protected c" by (auto dest!: in_set_dropD)
      from listBackups_protected [OF b(1)] listBackups_protected [OF c'(1)] c(2) b(2) c'(2)
      show False by simp
    qed
    then show ?thesis unfolding l by (auto intro: filter_cong)
  qed
  from u p show ?thesis by simp
qed

theorem cleanOldBackups_retention_witness:
  "map path (filter (\<lambda>b. \<not> protected b)
      (listBackups (retention_env ''1'') (snd (cleanOldBackups (retention_env ''1'') example_fs))))
     = [''/backup/github-sync/b.tar.gz'']
   \<and> map path (filter protected
      (listBackups (retention_env ''1'') (snd (cleanOldBackups (retention_env ''1'') example_fs))))
     = [''/backup/github-sync/d.tar.gz'']"
proof -
  have l: "listBackups (retention_env ''1'') example_fs =
    [\<lparr>path = ''/backup/github-sync/b.tar.gz'', name = ''b.tar.gz'', created = 30, protected = False\<rparr>,
     \<lparr>path = ''/backup/github-sync/c.tar.gz'', name = ''c.tar.gz'', created = 20, protected = False\<rparr>,
     \<lparr>path = ''/backup/github-sync/a.tar.gz'', name = ''a.tar.gz'', created = 10, protected = False\<rparr>,
     \<lparr>path = ''/backup/github-sync/d.tar.gz'', name = ''d.tar.gz'', created = 5, protected = True\<rparr>]"
    by code_simp
  have d: "distinct (map fst example_fs)" by (simp add: example_fs_def)
  have r: "BACKUP_RETENTION (retention_env ''1'') = Num (int 1)" by code_simp
  have f: "list_all (\<lambda>b. \<not> fault (retention_env ''1'') Unlink (path b))
             (toRemove (retention_env ''1'') example_fs)"
    by (simp add: retention_env_def quiet_env_def list_all_iff)
  from cleanOldBackups_retention [OF d r f] show ?thesis by (simp add: l)
qed

text \<open>
  C6. The claim: when the deletion of one backup fails, pruning goes on and still
  attempts every remaining candidate. In the code the \<open>try\<close> block encloses the whole
  loop, so the first failing \<open>unlink\<close> ends it. With retention 1, the candidates are
  \<open>c\<close> then \<open>a\<close>; the deletion of \<open>c\<close> fails, and \<open>a\<close>, whose deletion would not fail,
  is still there afterwards.
\<close>

theorem cleanOldBackups_stops_counterexample:
  "map path (toRemove (unlink_fails ''1'' ''/backup/github-sync/c.tar.gz'') example_fs)
     = [''/backup/github-sync/c.tar.gz'', ''/backup/github-sync/a.tar.gz'']
   \<and> \<not> fault (unlink_fails ''1'' ''/backup/github-sync/c.tar.gz'') Unlink ''/backup/github-sync/a.tar.gz''
   \<and> map_of (snd (cleanOldBackups (unlink_fails ''1'' ''/backup/github-sync/c.tar.gz'') example_fs))
        ''/backup/github-sync/a.tar.gz'' = Some \<lparr>content = Archive [], mtime = 10\<rparr>"
  by code_simp

lemma toRemove_distinct:
  assumes "distinct (map fst fs)"
  shows "distinct (map path (toRemove e fs))"
proof -
  have "distinct (map path (filter (\<lambda>b. \<not> protected b) (listBackups e fs)))"
    using listBackups_distinct [OF assms, of e] by (simp add: distinct_map_filter)
  then show ?thesis
    by (auto simp: toRemove_def slice_from_def drop_map [symmetric] distinct_drop split: jsnum.splits)
qed

lemma toRemove_nonempty:
  assumes "toRemove e fs \<noteq> []"
  shows "\<not> length_le (length (filter (\<lambda>b. \<not> protected b) (listBackups e fs))) (BACKUP_RETENTION e)"
  using assms
  by (auto simp: toRemove_def slice_from_def length_le_def split: jsnum.splits if_splits)

text \<open>
  C6, as the code has it. \<open>cleanOldBackups\<close> never throws. When the deletion of the
  candidate \<open>b\<close> fails after the candidates \<open>pre\<close> were deleted, pruning stops there:
  exactly the files of \<open>pre\<close> are removed, and \<open>b\<close> and all the candidates after it
  are left as they were.
\<close>

theorem cleanOldBackups_stops_at_first_failure:
  assumes "distinct (map fst fs)"
      and "toRemove e fs = pre @ b # post"
      and "list_all (\<lambda>c. \<not> fault e Unlink (path c)) pre"
      and "fault e Unlink (path b)"
  shows "fst (cleanOldBackups e' fs') = Inr ()
       \<and> cleanOldBackups e fs = (Inr (), remove_paths (path ` set pre) fs)
       \<and> list_all (\<lambda>c. map_of (snd (cleanOldBackups e fs)) (path c) = None) pre
       \<and> list_all (\<lambda>c. map_of (snd (cleanOldBackups e fs)) (path c) = map_of fs (path c) \<and>
                       map_of fs (path c) \<noteq> None) (b # post)"
proof -
  have dist: "distinct (map path (pre @ b # post))"
    using toRemove_distinct [OF assms(1), of e] assms(2) by simp
  have ex: "\<And>c. c \<in> set (pre @ b # post) \<Longrightarrow> map_of fs (path c) \<noteq> None"
    using toRemove_subset [of e fs] assms(2) listed_backup_exists by auto
  have "\<exists>err. unlink_each e fs (pre @ b # post) = (Inl err, remove_paths (set (map path pre)) fs)"
  proof (rule unlink_each_stops [OF dist _ assms(4)])
    fix c assume "c \<in> set pre"
    with assms(3) ex [of c] show "\<not> fault e Unlink (path c) \<and> map_of fs (path c) \<noteq> None"
      by (simp add: list_all_iff)
  qed
  then obtain err where
    u: "unlink_each e fs (toRemove e fs) = (Inl err, remove_paths (path ` set pre) fs)"
    using assms(2) by auto
  have nl: "\<not> length_le (length (filter (\<lambda>b. \<not> protected b) (listBackups e fs))) (BACKUP_RETENTION e)"
    using assms(2) by (intro toRemove_nonempty) simp
  have r: "cleanOldBackups e fs = (Inr (), remove_paths (path ` set pre) fs)"
    using u nl by (simp add: cleanOldBackups_def Let_def)
  have a: "list_all (\<lambda>c. map_of (snd (cleanOldBackups e fs)) (path c) = None) pre"
    by (simp add: r map_of_remove_paths list_all_iff)
  have "\<And>c. c \<in> set (b # post) \<Longrightarrow> path c \<notin> path ` set pre"
    using dist by auto
  then have k: "list_all (\<lambda>c. map_of (snd (cleanOldBackups e fs)) (path c) = map_of fs (path c) \<and>
                       map_of fs (path c) \<noteq> None) (b # post)"
    using ex unfolding r list_all_iff by (simp add: map_of_remove_paths)
  from cleanOldBackups_never_throws r a k show ?thesis by simp
qed

theorem cleanOldBackups_stops_at_first_failure_witness:
  "map fst (snd (cleanOldBackups (unlink_fails ''1'' ''/backup/github-sync/a.tar.gz'') example_fs))
     = [''/backup/github-sync/a.tar.gz'', ''/backup/github-sync/b.tar.gz'',
        ''/backup/github-sync/d.tar.gz'', ''/backup/github-sync/.protected-backups.json'',
        ''/config/configuration.yaml'']"
proof -
  let ?e = "unlink_fails ''1'' ''/backup/github-sync/a.tar.gz''"
  let ?c = "\<lparr>path = ''/backup/github-sync/c.tar.gz'', name = ''c.tar.gz'', created = 20, protected = False\<rparr>"
  let ?a = "\<lparr>path = ''/backup/github-sync/a.tar.gz'', name = ''a.tar.gz'', created = 10, protected = False\<rparr>"
  have d: "distinct (map fst example_fs)" by (simp add: example_fs_def)
  have t: "toRemove ?e example_fs = [?c] @ ?a # []" by code_simp
  have p: "list_all (\<lambda>c. \<not> fault ?e Unlink (path c)) [?c]"
    by (simp add: unlink_fails_def)
  have q: "fault ?e Unlink (path ?a)" by (simp add: unlink_fails_def)
  from cleanOldBackups_stops_at_first_failure [OF d t p q, THEN conjunct2, THEN conjunct1]
  show ?thesis by (simp add: remove_paths_def example_fs_def)
qed

text \<open>
  C9. Deleting ignores protection. For every existing backup file whose \<open>access\<close> and
  \<open>unlink\<close> calls do not fail, \<open>deleteBackup\<close> returns \<open>true\<close> and removes the file, and the
  HTTP route answers 200, whatever the protection file holds: neither function reads it.
  The witness deletes the protected backup \<open>d\<close>.
\<close>

theorem deleteBackup_ignores_protection:
  assumes "map_of fs (path_join BACKUP_DIR filename) = Some f"
      and "\<not> fault e Access (path_join BACKUP_DIR filename)"
      and "\<not> fault e Unlink (path_join BACKUP_DIR filename)"
  shows "deleteBackup e fs (path_join BACKUP_DIR filename)
           = (Inr True, AList.delete (path_join BACKUP_DIR filename) fs)
       \<and> delete_backup_route e fs filename
           = ((200, [(''success'', JBool True), (''message'', JStr ''Backup deleted'')]),
              AList.delete (path_join BACKUP_DIR filename) fs)
       \<and> map_of (AList.delete (path_join BACKUP_DIR filename) fs) (path_join BACKUP_DIR filename)
           = None"
proof -
  have ex: "exists e fs (path_join BACKUP_DIR filename)"
    using assms(1,2) by (rule exists_file)
  have d: "deleteBackup e fs (path_join BACKUP_DIR filename)
           = (Inr True, AList.delete (path_join BACKUP_DIR filename) fs)"
    using ex assms by (simp add: deleteBackup_def unlink_def)
  then have "delete_backup_route e fs filename
           = ((200, [(''success'', JBool True), (''message'', JStr ''Backup deleted'')]),
              AList.delete (path_join BACKUP_DIR filename) fs)"
    by (simp add: delete_backup_route_def BACKUP_DIR_def)
  with d show ?thesis by (simp add: delete_conv')
qed

theorem deleteBackup_ignores_protection_witness:
  "isBackupProtected (retention_env ''5'') example_fs ''/backup/github-sync/d.tar.gz'' = Inr True
   \<and> delete_backup_route (retention_env ''5'') example_fs ''d.tar.gz''
      = ((200, [(''success'', JBool True), (''message'', JStr ''Backup deleted'')]),
         [(''/backup/github-sync/a.tar.gz'', \<lparr>content = Archive [], mtime = 10\<rparr>),
          (''/backup/github-sync/b.tar.gz'', \<lparr>content = Archive [], mtime = 30\<rparr>),
          (''/backup/github-sync/c.tar.gz'', \<lparr>content = Archive [], mtime = 20\<rparr>),
          (''/backup/github-sync/.protected-backups.json'',
             \<lparr>content = Json (JArr [JStr ''d.tar.gz'']), mtime = 6\<rparr>),
          (''/config/configuration.yaml'', \<lparr>content = Raw ''homeassistant:'', mtime = 1\<rparr>)])"
proof -
  let ?e = "retention_env ''5''"
  have p: "isBackupProtected ?e example_fs ''/backup/github-sync/d.tar.gz'' = Inr True"
    by code_simp
  have j: "path_join BACKUP_DIR ''d.tar.gz'' = ''/backup/github-sync/d.tar.gz''"
    by (simp add: path_join_def BACKUP_DIR_def)
  have 1: "map_of example_fs (path_join BACKUP_DIR ''d.tar.gz'') = Some \<lparr>content = Archive [], mtime = 5\<rparr>"
    by (simp add: j example_fs_def)
  have 2: "\<not> fault ?e Access (path_join BACKUP_DIR ''d.tar.gz'')"
    and 3: "\<not> fault ?e Unlink (path_join BACKUP_DIR ''d.tar.gz'')"
    by (simp_all add: retention_env_def quiet_env_def)
  from deleteBackup_ignores_protection [OF 1 2 3, THEN conjunct2, THEN conjunct1] p
  show ?thesis by (simp add: j example_fs_def AList.delete_eq)
qed

section \<open>Properties of tracked sync\<close>




lemma copyFile_keeps:
  "copyFile e fs s d = Inr fs' \<Longrightarrow> map_of fs p \<noteq> None \<Longrightarrow> map_of fs' p \<noteq> None"
  by (auto simp: copyFile_def update_conv' split: sum.splits if_splits option.splits)


lemma copy_files_keeps:
  "map_of (fst st) p \<noteq> None \<Longrightarrow>
   map_of (fst (copy_files e repo targetPath files st)) p \<noteq> None"
proof (induction files arbitrary: st)
  case Nil
  then show ?case by simp
next
  case (Cons f files)
  obtain fs c s where st: "st = (fs, c, s)" by (cases st)
  show ?case
  proof (cases "copyFile e fs (path_join_norm repo f) (path_join_norm targetPath f)")
    case (Inl err)
    with Cons st show ?thesis by simp
  next
    case (Inr fs')
    from copyFile_keeps [OF Inr] Cons.prems st have "map_of fs' p \<noteq> None" by simp
    with Cons.IH [of "(fs', c + 1, s)"] Inr st show ?thesis by simp
  qed
qed






lemma saveSyncedFiles_keeps:
  "map_of fs p \<noteq> None \<Longrightarrow> map_of (saveSyncedFiles e fs files) p \<noteq> None"
  by (auto simp: saveSyncedFiles_def writeFile_def update_conv' split: sum.splits)


lemma loadSyncedFiles_returns: "\<exists>v. loadSyncedFiles e fs = Inr v"
  by (auto simp: loadSyncedFiles_def try_catch_def split: sum.splits)


lemma loadSyncedFiles_unusable:
  "state_file_unusable e fs \<Longrightarrow> loadSyncedFiles e fs = Inr (JArr [])"
  by (auto simp: loadSyncedFiles_def try_catch_def readFile_def JSON_parse_def state_file_unusable_def
      split: sum.splits if_splits option.splits content.splits)










text \<open>
  What the theorem leaves open: \<open>stdout.trim()\<close> also removes the white space that ends
  the last tracked name (or begins the first). When Git tracks the one file \<open>z\<close> followed
  by a space, the code reads \<open>z\<close>, fails to copy it and records it; the next run, with a
  second tracked file, reads both names as they are and deletes the file \<open>z\<close> of the
  target, which Git never tracked.
\<close>

lemma trackedSync_trimmed_name_example:
  "current_files (sync_env [''z '']) = [''z'']
   \<and> current_files (sync_env [''z '', ''zz'']) = [''z '', ''zz'']
   \<and> map_of (snd (trackedSync (sync_env [''z '', ''zz''])
                  (snd (trackedSync (sync_env [''z '']) spaced_name_fs
                          ''/tmp/github-sync-temp'' ''/config''))
                  ''/tmp/github-sync-temp'' ''/config''))
          ''/config/z'' = None"
  by code_simp

text \<open>
  C10. \<open>loadSyncedFiles\<close> never throws, and when the state file is absent, unreadable or
  not JSON it returns the empty list. The run of \<open>trackedSync\<close> that follows then
  succeeds (when \<open>git ls-files\<close> does), deletes nothing, and every file that existed
  before the run still exists after it.
\<close>

theorem loadSyncedFiles_never_throws:
  assumes "state_file_unusable e fs" and "git_ls_files e = Inr cur"
  shows "(\<exists>v. loadSyncedFiles e' fs' = Inr v)
       \<and> loadSyncedFiles e fs = Inr (JArr [])
       \<and> (\<exists>r. fst (trackedSync e fs repo targetPath) = Inr r \<and> deleted r = 0)
       \<and> list_all (\<lambda>p. map_of (snd (trackedSync e fs repo targetPath)) p \<noteq> None) (map fst fs)"
proof -
  obtain files where g: "getGitTrackedFiles e repo = Inr files"
    using assms(2) by (simp add: getGitTrackedFiles_def)
  let ?c = "copy_files e repo targetPath files (fs, 0, 0)"
  have l: "loadSyncedFiles e fs = Inr (JArr [])"
    using assms(1) by (rule loadSyncedFiles_unusable)
  obtain fs1 cc sc where c: "?c = (fs1, cc, sc)" by (cases ?c)
  have t: "trackedSync e fs repo targetPath
         = (Inr \<lparr>copied = cc, deleted = 0, skipped = sc, tracked = length files\<rparr>,
            saveSyncedFiles e fs1 files)"
    using l g c by (simp add: trackedSync_def)
  have "map_of (saveSyncedFiles e fs1 files) p \<noteq> None" if "p \<in> set (map fst fs)" for p
  proof -
    from that have "map_of (fst (fs, 0::nat, 0::nat)) p \<noteq> None" by (simp add: map_of_eq_None_iff)
    from copy_files_keeps [OF this, of e repo targetPath files] c have "map_of fs1 p \<noteq> None" by simp
    then show ?thesis by (rule saveSyncedFiles_keeps)
  qed
  then have k: "list_all (\<lambda>p. map_of (snd (trackedSync e fs repo targetPath)) p \<noteq> None) (map fst fs)"
    unfolding t list_all_iff by simp
  from loadSyncedFiles_returns l t k show ?thesis by simp
qed

theorem loadSyncedFiles_never_throws_witness:
  "loadSyncedFiles (sync_env [''a.yaml'']) corrupt_state_fs = Inr (JArr [])
   \<and> map_of (snd (trackedSync (sync_env [''a.yaml'']) corrupt_state_fs
                     ''/tmp/github-sync-temp'' ''/config'')) ''/config/b.yaml'' \<noteq> None"
proof -
  have 1: "state_file_unusable (sync_env [''a.yaml'']) corrupt_state_fs"
    by (simp add: state_file_unusable_def corrupt_state_fs_def STATE_FILE_def)
  have 2: "git_ls_files (sync_env [''a.yaml'']) = Inr (''a.yaml'' @ [CHR 0x0A])"
    by (simp add: sync_env_def)
  from loadSyncedFiles_never_throws [OF 1 2, of _ _ "''/tmp/github-sync-temp''" "''/config''"]
  show ?thesis by (simp add: corrupt_state_fs_def)
qed

section \<open>Properties of the restart scheduler\<close>

lemma settled_promise_keeps_state:
  "resolve (Fulfilled v) w = Fulfilled v" "reject (Fulfilled v) err = Fulfilled v"
  by (simp_all add: resolve_def reject_def)

text \<open>
  The promise of a call that armed a timer is fulfilled when the call returns, and no
  firing of the timer changes it, whatever the outcome of the restart request.
\<close>

lemma scheduleRestart_promise_stays_fulfilled:
  assumes "process_env e ''AUTO_RESTART'' = Some ''true''"
      and "\<not> falsy (process_env e ''SUPERVISOR_TOKEN'')"
  shows "map_of (promises (fire_timer e' (snd (scheduleRestart e rs d)) (next_handle rs)))
           (next_handle rs)
         = Some (Fulfilled [(''scheduled'', JBool True), (''executed'', JBool False),
                            (''delaySeconds'', JNum (int d))])"
proof -
  let ?v = "[(''scheduled'', JBool True), (''executed'', JBool False),
             (''delaySeconds'', JNum (int d))]"
  let ?h = "next_handle rs"
  let ?rs' = "snd (scheduleRestart e rs d)"
  have nh: "next_handle (case restartTimer rs of None \<Rightarrow> rs | Some h \<Rightarrow> clearTimeout h rs) = ?h"
    by (simp add: clearTimeout_def split: option.splits)
  have p: "promises ?rs' = (?h, Fulfilled ?v) # promises
             (case restartTimer rs of None \<Rightarrow> rs | Some h \<Rightarrow> clearTimeout h rs)"
    using assms nh by (simp add: scheduleRestart_def Let_def resolve_def)
  show ?thesis
  proof (cases "map_of (timers ?rs') ?h")
    case None
    then show ?thesis using p by (simp add: fire_timer_def)
  next
    case (Some token)
    then show ?thesis using p
      by (cases "restart_call e'")
         (simp_all add: fire_timer_def Let_def settled_promise_keeps_state)
  qed
qed

text \<open>
  C7. The claim: when the timer fires and the restart request fails, the promise of
  \<open>scheduleRestart\<close> rejects with that error. In the code the promise is resolved as soon
  as the timer is armed, so the later \<open>reject(error)\<close> has no effect. With restarts
  enabled and a supervisor that answers with an error: the call returns a promise fulfilled
  with \<open>{ scheduled: true, executed: false, delaySeconds: 10 }\<close>; after the timer has
  fired, one restart request was sent, no timer is armed, the module state is cleared, and
  the promise is still fulfilled with that value, not rejected.
\<close>

theorem scheduleRestart_failure_not_reported:
  "fst (scheduleRestart restart_fails_env idle 10)
     = Fulfilled [(''scheduled'', JBool True), (''executed'', JBool False), (''delaySeconds'', JNum 10)]
   \<and> fire_timer restart_fails_env (snd (scheduleRestart restart_fails_env idle 10)) 0
     = \<lparr>restartTimer = None, restartScheduledTime = None, timers = [],
        promises = [(0, Fulfilled [(''scheduled'', JBool True), (''executed'', JBool False),
                                   (''delaySeconds'', JNum 10)])],
        next_handle = 1, restart_requests = 1\<rparr>"
  by (simp add: scheduleRestart_def fire_timer_def restart_fails_env_def quiet_env_def idle_def
      falsy_def resolve_def reject_def Let_def)

section \<open>Properties of the sync pipeline\<close>

lemma under_both:
  assumes "is_under a q" "is_under b q"
  shows "a = b \<or> is_under a b \<or> is_under b a"
proof -
  from assms have "prefix (a @ ''/'') q" "prefix (b @ ''/'') q" by (simp_all add: is_under_def)
  then have "prefix (a @ ''/'') (b @ ''/'') \<or> prefix (b @ ''/'') (a @ ''/'')"
    by (rule prefix_same_cases)
  then show ?thesis
    by (auto simp: is_under_def)
qed

lemma independent_not_under:
  assumes "independent d x" "is_under d q"
  shows "q \<noteq> x" "\<not> is_under x q"
  using assms under_both [of d q x] by (auto simp: independent_def)

lemma files_below_update:
  "\<not> is_under d k \<Longrightarrow> files_below d (AList.update k v fs) = files_below d fs"
  unfolding files_below_def by (induction fs) auto

lemma files_below_filter:
  assumes "\<And>q. is_under d q \<Longrightarrow> Q q"
  shows "files_below d (filter (\<lambda>(q, f). Q q) fs) = files_below d fs"
  unfolding files_below_def using assms by (induction fs) auto

lemma removeDirectory_frame:
  assumes "removeDirectory e fs x = Inr fs'" "independent d x"
  shows "files_below d fs' = files_below d fs"
proof (cases "exists e fs x")
  case False
  with assms show ?thesis by (simp add: removeDirectory_def)
next
  case True
  with assms(1) have "fs' = filter (\<lambda>(q, f). \<not> (q = x \<or> is_under x q)) fs"
    by (simp add: removeDirectory_def split: if_splits)
  then show ?thesis
    using files_below_filter [of d "\<lambda>q. \<not> (q = x \<or> is_under x q)" fs]
      independent_not_under [OF assms(2)] by auto
qed

lemma rsync_frame:
  assumes "independent d dest"
  shows "files_below d (rsync ow src dest fs) = files_below d fs"
proof -
  have "files_below d (foldl (\<lambda>acc (p, f).
              if is_under src p
              then (let q = dest @ drop (length src) p
                    in if ow \<or> map_of acc q = None then AList.update q f acc else acc)
              else acc) acc0 xs) = files_below d acc0" for acc0 xs
  proof (induction xs arbitrary: acc0)
    case Nil
    then show ?case by simp
  next
    case (Cons x xs)
    obtain p f where x: "x = (p, f)" by (cases x)
    have "is_under dest (dest @ drop (length src) p)" if "is_under src p"
      using that by (auto simp: is_under_def prefix_def)
    then have "\<not> is_under d (dest @ drop (length src) p)" if "is_under src p"
      using that independent_not_under(2) [OF assms] by blast
    then show ?case using Cons.IH x by (simp add: Let_def files_below_update)
  qed
  then show ?thesis by (simp add: rsync_def)
qed

lemma copyDirectory_frame:
  assumes "copyDirectory e fs src dest ow = Inr fs'" "independent d dest"
  shows "files_below d fs' = files_below d fs"
  using assms rsync_frame
  by (auto simp: copyDirectory_def split: sum.splits if_splits)

lemma git_clone_into_frame:
  assumes "git_clone_into e fs x = Inr fs'" "independent d x"
  shows "files_below d fs' = files_below d fs"
proof -
  have "files_below d (foldl (\<lambda>acc (rel, f). AList.update (path_join x rel) f acc) acc0 tree)
        = files_below d acc0" for acc0 tree
  proof (induction tree arbitrary: acc0)
    case Nil
    then show ?case by simp
  next
    case (Cons t tree)
    obtain rel f where t: "t = (rel, f)" by (cases t)
    have "is_under x (path_join x rel)" by (simp add: is_under_def path_join_def)
    then have "\<not> is_under d (path_join x rel)"
      using independent_not_under(2) [OF assms(2)] by blast
    then show ?case using Cons.IH t by (simp add: files_below_update)
  qed
  with assms(1) show ?thesis by (auto simp: git_clone_into_def split: sum.splits)
qed

lemma createBackup_frame:
  assumes "independent d BACKUP_DIR"
  shows "files_below d (snd (createBackup e fs src)) = files_below d fs"
proof -
  have "is_under BACKUP_DIR (path_join BACKUP_DIR n @ sfx)" for n sfx
    by (simp add: is_under_def path_join_def)
  then have "\<not> is_under d (path_join BACKUP_DIR n @ sfx)" for n sfx
    using independent_not_under(2) [OF assms] by blast
  then show ?thesis
    by (auto simp: createBackup_def Let_def files_below_update split: sum.splits)
qed

lemma saveHistory_frame:
  "\<not> is_under d HISTORY_FILE \<Longrightarrow> files_below d (saveHistory e fs h) = files_below d fs"
  by (auto simp: saveHistory_def writeFile_def Let_def files_below_update split: sum.splits)

lemma addSyncEntry_frame:
  "\<not> is_under d HISTORY_FILE \<Longrightarrow> files_below d (snd (addSyncEntry e fs entry)) = files_below d fs"
  by (auto simp: addSyncEntry_def Let_def saveHistory_frame split: jval.splits)

lemma updateSyncEntry_frame:
  "\<not> is_under d HISTORY_FILE \<Longrightarrow>
   files_below d (snd (updateSyncEntry e fs ident updates)) = files_below d fs"
  by (auto simp: updateSyncEntry_def saveHistory_frame split: jval.splits sum.splits option.splits)

lemma and_then_frame:
  assumes "files_below d (snd m) = F"
      and "\<And>v s. files_below d s = F \<Longrightarrow> files_below d (snd (k v s)) = F"
  shows "files_below d (snd (and_then m k)) = F"
  using assms by (auto simp: and_then_def split: prod.splits sum.splits)

lemma fs_step_frame:
  assumes "files_below d fs = F"
      and "\<And>fs'. r = Inr fs' \<Longrightarrow> files_below d fs' = files_below d fs"
  shows "files_below d (snd (fs_step fs r)) = F"
  using assms by (auto simp: fs_step_def split: sum.splits)

lemma steps_before_apply_frame:
  assumes t: "independent (SYNC_PATH e) tempDir"
      and v: "independent (SYNC_PATH e) validationDir"
      and b: "independent (SYNC_PATH e) BACKUP_DIR"
  shows "files_below (SYNC_PATH e) (snd (steps_before_apply e fs))
           = files_below (SYNC_PATH e) fs"
proof -
  let ?d = "SYNC_PATH e"
  have g: "independent ?d (path_join tempDir ''.git'')"
  proof -
    have u: "is_under tempDir (path_join tempDir ''.git'')"
      by (simp add: is_under_def path_join_def)
    have "\<not> is_under ?d (path_join tempDir ''.git'')"
      using independent_not_under(2) [OF t] u by blast
    moreover have "\<not> is_under (path_join tempDir ''.git'') ?d"
    proof
      assume a: "is_under (path_join tempDir ''.git'') ?d"
      then have "is_under tempDir ?d"
        by (auto simp: is_under_def path_join_def prefix_def)
      with t show False by (simp add: independent_def)
    qed
    moreover have "?d \<noteq> path_join tempDir ''.git''"
      using u t by (auto simp: independent_def)
    ultimately show ?thesis by (simp add: independent_def)
  qed
  have rm: "files_below ?d fs' = files_below ?d fs0"
    if "(if exists e fs0 x then removeDirectory e fs0 x else Inr fs0) = Inr fs'"
       "independent ?d x" for fs0 fs' x
    using that removeDirectory_frame by (auto split: if_splits)
  have cl: "files_below ?d fs' = files_below ?d fs0"
    if "(case git_clone_into e fs0 tempDir of
           Inl err \<Rightarrow> Inl (Error (''Failed to clone repository: '' @ message err))
         | Inr fs' \<Rightarrow> Inr fs') = Inr fs'" for fs0 fs'
    using that git_clone_into_frame [OF _ t] by (auto split: sum.splits)
  have bk: "files_below ?d (snd (if BACKUP_ENABLED e
                then (case createBackup e fs0 ?d of
                        (Inl err, fs') \<Rightarrow> (Inl err, fs')
                      | (Inr created_path, fs') \<Rightarrow> (Inr (Some created_path), fs'))
                else (Inr None, fs0))) = files_below ?d fs0" for fs0
    using createBackup_frame [OF b, of e fs0 ?d]
    by (auto split: prod.splits sum.splits)
  show ?thesis
    unfolding steps_before_apply_def Let_def
    apply (rule and_then_frame)
     apply (rule fs_step_frame [OF refl])
     apply (erule rm [OF _ t])
    apply (rule and_then_frame)
     apply (simp add: bk)
    apply (rule and_then_frame)
     apply (simp split: sum.splits)
    apply (rule and_then_frame)
     apply (erule fs_step_frame)
     apply (erule cl)
    apply (rule and_then_frame)
     apply (erule fs_step_frame)
     apply (erule rm [OF _ g])
    apply (rule and_then_frame)
     apply (erule fs_step_frame)
     apply (erule rm [OF _ v])
    apply (rule and_then_frame)
     apply (erule fs_step_frame)
     apply (erule copyDirectory_frame [OF _ v])
    apply (rule and_then_frame)
     apply (erule fs_step_frame)
     apply (erule copyDirectory_frame [OF _ v])
    apply (rule and_then_frame)
     apply (erule fs_step_frame)
     apply (erule removeDirectory_frame [OF _ v])
    apply simp
    done
qed

lemma handle_failure_frame:
  assumes "independent d tempDir" "\<not> is_under d HISTORY_FILE"
  shows "files_below d (fst (snd (handle_failure e fs rs syncId error))) = files_below d fs"
proof (cases "if exists e fs tempDir then removeDirectory e fs tempDir else Inr fs")
  case (Inl err)
  then show ?thesis by (simp add: handle_failure_def)
next
  case (Inr fs1)
  then have 1: "files_below d fs1 = files_below d fs"
    using removeDirectory_frame [OF _ assms(1)] by (auto split: if_splits)
  let ?u = "updateSyncEntry e fs1 syncId
              [(''status'', JStr ''failed''), (''message'', JStr ''Sync failed''),
               (''error'', JStr (message error)), (''duration'', JNum (int (elapsed e)))]"
  obtain r2 fs2 where u: "?u = (r2, fs2)" by (cases ?u)
  have "files_below d (snd ?u) = files_below d fs1"
    using assms(2) by (rule updateSyncEntry_frame)
  with u 1 have 2: "files_below d fs2 = files_below d fs" by simp
  have "fst (snd (handle_failure e fs rs syncId error)) = fs2"
    using Inr u by (cases r2) (simp_all add: handle_failure_def)
  with 2 show ?thesis by simp
qed

lemma handle_failure_throws: "\<exists>err. fst (handle_failure e fs rs syncId error) = Inl err"
  by (auto simp: handle_failure_def split: prod.splits sum.splits)

text \<open>
  C2. A failure before the apply step leaves the target untouched. Let the sync path be
  independent of the temp directory, of the validation directory and of the backup
  directory, and let the history file not lie inside it (as with \<open>/config\<close>). When
  \<open>addSyncEntry\<close> throws or one of the steps 1 to 5 does, in particular the clone of
  step 3, \<open>syncFromGitHub\<close> throws, and the files inside the sync path are after the run
  exactly the files of before: same paths, same contents, same modification times.
\<close>

theorem syncFromGitHub_failure_leaves_target:
  assumes "independent (SYNC_PATH e) tempDir"
      and "independent (SYNC_PATH e) validationDir"
      and "independent (SYNC_PATH e) BACKUP_DIR"
      and "\<not> is_under (SYNC_PATH e) HISTORY_FILE"
      and "fails_before_apply e fs syncType commits"
  shows "(\<exists>err. fst (syncFromGitHub e fs rs syncType commits) = Inl err)
       \<and> files_below (SYNC_PATH e) (fst (snd (syncFromGitHub e fs rs syncType commits)))
           = files_below (SYNC_PATH e) fs"
proof -
  let ?d = "SYNC_PATH e"
  obtain r0 fs0 where a: "addSyncEntry e fs (sync_entry e syncType commits) = (r0, fs0)"
    by (cases "addSyncEntry e fs (sync_entry e syncType commits)")
  have f0: "files_below ?d fs0 = files_below ?d fs"
    using addSyncEntry_frame [OF assms(4), of e fs "sync_entry e syncType commits"] a by simp
  show ?thesis
  proof (cases r0)
    case (Inl err)
    with a f0 show ?thesis by (simp add: syncFromGitHub_def)
  next
    case (Inr ident)
    obtain r1 fs1 where s: "steps_before_apply e fs0 = (r1, fs1)"
      by (cases "steps_before_apply e fs0")
    from assms(5) a Inr s obtain error where r1: "r1 = Inl error"
      by (auto simp: fails_before_apply_def split: sum.splits)
    have f1: "files_below ?d fs1 = files_below ?d fs"
      using steps_before_apply_frame [OF assms(1-3), of fs0] s f0 by simp
    let ?id = "case ident of Some v \<Rightarrow> v | None \<Rightarrow> JNull"
    have sync: "syncFromGitHub e fs rs syncType commits = handle_failure e fs1 rs ?id error"
      using a Inr s r1 by (simp add: syncFromGitHub_def)
    from handle_failure_frame [OF assms(1,4), of e fs1 rs ?id error] f1
      handle_failure_throws [of e fs1 rs ?id error] sync
    show ?thesis by simp
  qed
qed

theorem syncFromGitHub_failure_leaves_target_witness:
  "fails_before_apply clone_fails_env target_fs ''manual'' 0
   \<and> files_below ''/config''
        (fst (snd (syncFromGitHub clone_fails_env target_fs idle ''manual'' 0)))
     = [(''/config/configuration.yaml'', \<lparr>content = Raw ''homeassistant:'', mtime = 1\<rparr>),
        (''/config/secrets.yaml'', \<lparr>content = Raw ''api_key: 123'', mtime = 2\<rparr>)]"
proof -
  have p: "SYNC_PATH clone_fails_env = ''/config''"
    by (simp add: SYNC_PATH_def env_or_def clone_fails_env_def quiet_env_def)
  have 1: "independent (SYNC_PATH clone_fails_env) tempDir"
    and 2: "independent (SYNC_PATH clone_fails_env) validationDir"
    and 3: "independent (SYNC_PATH clone_fails_env) BACKUP_DIR"
    and 4: "\<not> is_under (SYNC_PATH clone_fails_env) HISTORY_FILE"
    unfolding p by code_simp+
  have 5: "fails_before_apply clone_fails_env target_fs ''manual'' 0"
    by code_simp
  have 6: "files_below ''/config'' target_fs
     = [(''/config/configuration.yaml'', \<lparr>content = Raw ''homeassistant:'', mtime = 1\<rparr>),
        (''/config/secrets.yaml'', \<lparr>content = Raw ''api_key: 123'', mtime = 2\<rparr>)]"
    by code_simp
  from syncFromGitHub_failure_leaves_target [OF 1 2 3 4 5, of idle, THEN conjunct2] 5 6
  show ?thesis unfolding p by simp
qed

end
